theory Spec2Isabelle
  imports Complex_Main "HOL-Library.Word" "HOL-Library.Multiset" "HOL-Library.Monad_Syntax"
begin

unbundle bit_operations_syntax

section \<open>Errors and results\<close>

text \<open>
  A thrown \<^verbatim>\<open>Error(msg)\<close> is a value. A function whose loop condition does not
  by itself bound the number of iterations is defined with
  \<^theory_text>\<open>partial_function (option)\<close>: \<open>None\<close> is "does not return", and every
  theorem saying that a call returns proves that its value is \<open>Some\<close>.
\<close>

datatype error = Error string

section \<open>chunk\<close>

text \<open>
  \<open>size\<close> is a \<^verbatim>\<open>number\<close> and the function does not ask for an integer: it is a
  rational here, and so are \<open>i\<close> and \<open>i + size\<close>. The additions are exact; so are they in
  doubles for an integer \<open>size\<close>, and for halves and quarters of moderate magnitude.
  The numbers that are not finite are left out.

  \<^verbatim>\<open>array.slice(start, end)\<close> truncates each bound towards zero, counts a negative bound
  from the end of the array, clamps both to the array, and returns the elements from
  the first bound up to, not including, the second.
\<close>

definition trunc :: "rat \<Rightarrow> int" where
  "trunc x = (if 0 \<le> x then \<lfloor>x\<rfloor> else \<lceil>x\<rceil>)"

definition slice :: "'a list \<Rightarrow> rat \<Rightarrow> rat \<Rightarrow> 'a list" where
  "slice array start fin =
     (let len = int (length array);
          relativeStart = trunc start;
          k = (if relativeStart < 0 then max (len + relativeStart) 0 else min relativeStart len);
          relativeEnd = trunc fin;
          final = (if relativeEnd < 0 then max (len + relativeEnd) 0 else min relativeEnd len)
      in take (nat (final - k)) (drop (nat k) array))"

text \<open>
  \<^verbatim>\<open>for (let i = 0; i < array.length; i += size) result.push(array.slice(i, i + size));\<close>
\<close>

partial_function (option)
  chunk_loop :: "'a list \<Rightarrow> rat \<Rightarrow> rat \<Rightarrow> 'a list list \<Rightarrow> 'a list list option" where
  [code]: "chunk_loop array sz i result =
     (if i < of_nat (length array)
      then chunk_loop array sz (i + sz) (result @ [slice array i (i + sz)])
      else Some result)"

definition chunk :: "'a list \<Rightarrow> rat \<Rightarrow> (error + 'a list list) option" where
  "chunk array sz =
     (if sz \<le> 0 then Some (Inl (Error ''Size must be greater than 0''))
      else map_option Inr (chunk_loop array sz 0 []))"

section \<open>getRandomSamples\<close>

subsection \<open>The sampling loops, for any generator\<close>

text \<open>
  The local variables the loops update: the array \<^verbatim>\<open>sampledItems\<close>, the set
  \<^verbatim>\<open>sampledIndexes\<close> and the hidden state of the closure \<^verbatim>\<open>myRandomUniform\<close>.
  A call \<^verbatim>\<open>myRandomUniform()\<close> is \<open>draw g = (u, g')\<close>: the number returned and the
  closure's next state.
\<close>

record ('a, 'g) sampler =
  sampledItems :: "'a list"
  sampledIndexes :: "nat set"
  rng :: 'g

text \<open>
  The \<^verbatim>\<open>for (const [i, item] of items.entries())\<close> loop, from some entry on.
  \<^verbatim>\<open>&&\<close> is lazy: no number is drawn for an index that is excluded. The
  \<^verbatim>\<open>break\<close> is the branch that returns without looking at the remaining entries.
\<close>

fun scan :: "('g \<Rightarrow> rat \<times> 'g) \<Rightarrow> bool \<Rightarrow> int \<Rightarrow> rat \<Rightarrow> (nat \<times> 'a) list
    \<Rightarrow> ('a, 'g) sampler \<Rightarrow> ('a, 'g) sampler" where
  "scan draw replace targetSize threshold [] s = s"
| "scan draw replace targetSize threshold ((i, item) # entries) s =
     (if replace \<or> i \<notin> sampledIndexes s then
        (case draw (rng s) of (u, g) \<Rightarrow>
           if u \<le> threshold then
             (let s' = \<lparr>sampledItems = sampledItems s @ [item],
                        sampledIndexes = insert i (sampledIndexes s),
                        rng = g\<rparr>
              in if targetSize \<le> int (length (sampledItems s')) then s'
                 else scan draw replace targetSize threshold entries s')
           else scan draw replace targetSize threshold entries (s\<lparr>rng := g\<rparr>))
      else scan draw replace targetSize threshold entries s)"

text \<open>\<^verbatim>\<open>while (sampledItems.length < targetSize) { for ... }\<close>\<close>

partial_function (option)
  sample_loop :: "('g \<Rightarrow> rat \<times> 'g) \<Rightarrow> bool \<Rightarrow> int \<Rightarrow> rat \<Rightarrow> 'a list
    \<Rightarrow> ('a, 'g) sampler \<Rightarrow> ('a, 'g) sampler option" where
  [code]: "sample_loop draw replace targetSize threshold items s =
     (if int (length (sampledItems s)) < targetSize
      then sample_loop draw replace targetSize threshold items
             (scan draw replace targetSize threshold (enumerate 0 items) s)
      else Some s)"

subsection \<open>The generator of d3-random\<close>

text \<open>
  Modelled from the spec: the seeded uniform generator
  \<^verbatim>\<open>randomUniform.source(randomLcg(seed))(0, 1)\<close>, which the source imports from the
  package d3-random and the repository does not contain. The specification fixes that its
  output sequence is determined by the seed; the definitions are the generator that the
  package implements. \<^verbatim>\<open>randomLcg(seed)\<close> is a linear congruential generator on 32-bit
  integers: its state starts as \<^verbatim>\<open>Math.abs(seed) | 0\<close> for an integer seed, a call
  replaces it by \<^verbatim>\<open>mul * state + inc | 0\<close> with \<^verbatim>\<open>mul = 0x19660D\<close> and
  \<^verbatim>\<open>inc = 0x3C6EF35F\<close>, and returns the new state, read as an unsigned integer, times
  \<open>2\<^sup>-\<^sup>3\<^sup>2\<close>. \<^verbatim>\<open>randomUniform.source(g)(0, 1)\<close> returns \<^verbatim>\<open>g() * 1 + 0\<close>. All of
  these numbers are dyadic rationals that a double holds exactly. The loops above take the
  generator as the parameter \<open>draw\<close>, and the lemmas about them hold for every generator.
\<close>

definition mul :: "32 word" where
  "mul = 0x19660D"

definition inc :: "32 word" where
  "inc = 0x3C6EF35F"

definition randomLcg :: "int \<Rightarrow> 32 word" where
  "randomLcg seed = word_of_int \<bar>seed\<bar>"

definition lcg_step :: "32 word \<Rightarrow> 32 word" where
  "lcg_step state = mul * state + inc"

definition myRandomUniform :: "32 word \<Rightarrow> rat \<times> 32 word" where
  "myRandomUniform state =
     (let state' = lcg_step state in (of_int (uint state') / 2 ^ 32 * 1 + 0, state'))"

subsection \<open>The function\<close>

text \<open>
  \<open>size\<close> and \<open>seed\<close> are integers. The quotient \<^verbatim>\<open>targetSize / items.length\<close> is
  taken in the rationals, where the code has it rounded to a double: the two can differ
  in the last bit, and are both 1 when \<open>targetSize\<close> is the length. It is read only inside
  the loop, which is entered only when \<open>targetSize\<close> is positive, hence \<open>items\<close>
  non-empty. The properties proved of the loops hold for every threshold that is not
  negative (\<open>sample_loop_any_threshold\<close>).
\<close>

definition getRandomSamples :: "'a list \<Rightarrow> int \<Rightarrow> int \<Rightarrow> bool \<Rightarrow> 'a list option" where
  "getRandomSamples items sz seed replace =
     (let targetSize = min sz (int (length items));
          threshold = of_int targetSize / of_nat (length items)
      in map_option sampledItems
           (sample_loop myRandomUniform replace targetSize threshold items
              \<lparr>sampledItems = [], sampledIndexes = {}, rng = randomLcg seed\<rparr>))"

subsection \<open>The function in its environment\<close>

text \<open>
  The engine has a generator of its own, \<^verbatim>\<open>Math.random\<close>, with hidden state that every
  call of it reads and advances; it is the default source of d3-random's
  \<^verbatim>\<open>randomUniform\<close>. Here the environment is a state \<open>w\<close> of any type, and
  \<open>mathRandom\<close> is any function from a state to a number and the next state. A source is
  either that generator or the closure that \<^verbatim>\<open>randomLcg\<close> returns, which owns its state.
  \<open>call_source\<close> is a call of a source, \<open>randomUniform_source\<close> a call of the function
  that \<^verbatim>\<open>randomUniform.source(source)(0, 1)\<close> returns.
\<close>

datatype source = MathRandom | Lcg "32 word"

definition call_source :: "('w \<Rightarrow> rat \<times> 'w) \<Rightarrow> source \<times> 'w \<Rightarrow> rat \<times> source \<times> 'w" where
  "call_source mathRandom g =
     (case g of
        (MathRandom, w) \<Rightarrow> (case mathRandom w of (u, w') \<Rightarrow> (u, MathRandom, w'))
      | (Lcg state, w) \<Rightarrow> (let state' = lcg_step state in (of_int (uint state') / 2 ^ 32, Lcg state', w)))"

definition randomUniform_source :: "('w \<Rightarrow> rat \<times> 'w) \<Rightarrow> source \<times> 'w \<Rightarrow> rat \<times> source \<times> 'w" where
  "randomUniform_source mathRandom g = (case call_source mathRandom g of (u, g') \<Rightarrow> (u * 1 + 0, g'))"

text \<open>
  \<open>getRandomSamples\<close> with the environment passed in and returned: the same loops, on the
  source that \<^verbatim>\<open>randomUniform.source(randomLcg(seed))\<close> builds. The parameter
  \<^verbatim>\<open>seed = 1212\<close> has a default, so \<^verbatim>\<open>randomLcg\<close> always receives a number.
\<close>

definition getRandomSamples_env ::
  "('w \<Rightarrow> rat \<times> 'w) \<Rightarrow> 'a list \<Rightarrow> int \<Rightarrow> int \<Rightarrow> bool \<Rightarrow> 'w \<Rightarrow> ('a list \<times> 'w) option" where
  "getRandomSamples_env mathRandom items sz seed replace w =
     (let targetSize = min sz (int (length items));
          threshold = of_int targetSize / of_nat (length items)
      in map_option (\<lambda>s. (sampledItems s, snd (rng s)))
           (sample_loop (randomUniform_source mathRandom) replace targetSize threshold items
              \<lparr>sampledItems = [], sampledIndexes = {}, rng = (Lcg (randomLcg seed), w)\<rparr>))"

section \<open>calculateLevenshteinDistance\<close>

subsection \<open>Strings and the matrix\<close>

text \<open>
  A string is the sequence of its code units; the functions are polymorphic in the type of
  a unit. \<^verbatim>\<open>str[k]\<close> is the unit at position \<open>k\<close>, or \<^verbatim>\<open>undefined\<close> (here \<open>None\<close>) out
  of range, and \<^verbatim>\<open>===\<close> compares the two.
\<close>

definition char_at :: "'c list \<Rightarrow> nat \<Rightarrow> 'c option" where
  "char_at str k = (if k < length str then Some (str ! k) else None)"

text \<open>
  \<^verbatim>\<open>dp: number[][]\<close> is an array of rows that the function fills index by index: a
  partial map from indices to rows, a row a partial map from indices to numbers.
  Reading a cell gives \<open>None\<close> when the row or the cell was never written (in JavaScript, a
  \<^verbatim>\<open>TypeError\<close> for the row, \<^verbatim>\<open>undefined\<close> for the cell); writing a cell needs its
  row. A call that meets one of these does not produce a number and is \<open>None\<close> as a whole.
\<close>

type_synonym matrix = "nat \<rightharpoonup> (nat \<rightharpoonup> int)"

definition get_cell :: "matrix \<Rightarrow> nat \<Rightarrow> nat \<Rightarrow> int option" where
  "get_cell dp i j = (case dp i of None \<Rightarrow> None | Some row \<Rightarrow> row j)"

definition set_cell :: "matrix \<Rightarrow> nat \<Rightarrow> nat \<Rightarrow> int \<Rightarrow> matrix option" where
  "set_cell dp i j v = (case dp i of None \<Rightarrow> None | Some row \<Rightarrow> Some (dp(i \<mapsto> row(j \<mapsto> v))))"

subsection \<open>The loops\<close>

text \<open>\<^verbatim>\<open>for (let i = 0; i <= m; i++) { dp[i] = []; dp[i][0] = i; }\<close>\<close>

function init_rows :: "nat \<Rightarrow> nat \<Rightarrow> matrix \<Rightarrow> matrix option" where
  "init_rows m i dp =
     (if i \<le> m
      then do { dp' \<leftarrow> set_cell (dp(i \<mapsto> Map.empty)) i 0 (int i); init_rows m (i + 1) dp' }
      else Some dp)"
  by pat_completeness auto
termination
  by (relation "measure (\<lambda>(m, i, dp). m + 1 - i)") auto

declare init_rows.simps [simp del]

text \<open>\<^verbatim>\<open>for (let j = 0; j <= n; j++) { dp[0][j] = j; }\<close>\<close>

function init_cols :: "nat \<Rightarrow> nat \<Rightarrow> matrix \<Rightarrow> matrix option" where
  "init_cols n j dp =
     (if j \<le> n
      then do { dp' \<leftarrow> set_cell dp 0 j (int j); init_cols n (j + 1) dp' }
      else Some dp)"
  by pat_completeness auto
termination
  by (relation "measure (\<lambda>(n, j, dp). n + 1 - j)") auto

declare init_cols.simps [simp del]

text \<open>The body of the inner loop: the cell \<open>(i, j)\<close> from its three neighbours.\<close>

definition fill_cell :: "'c list \<Rightarrow> 'c list \<Rightarrow> nat \<Rightarrow> nat \<Rightarrow> matrix \<Rightarrow> matrix option" where
  "fill_cell str1 str2 i j dp =
     (if char_at str1 (i - 1) = char_at str2 (j - 1)
      then do { diag \<leftarrow> get_cell dp (i - 1) (j - 1); set_cell dp i j diag }
      else do {
        deletion \<leftarrow> get_cell dp (i - 1) j;
        insertion \<leftarrow> get_cell dp i (j - 1);
        substitution \<leftarrow> get_cell dp (i - 1) (j - 1);
        set_cell dp i j (min (deletion + 1) (min (insertion + 1) (substitution + 1)))
      })"

text \<open>\<^verbatim>\<open>for (let j = 1; j <= n; j++) { ... }\<close>\<close>

function fill_row :: "'c list \<Rightarrow> 'c list \<Rightarrow> nat \<Rightarrow> nat \<Rightarrow> nat \<Rightarrow> matrix \<Rightarrow> matrix option" where
  "fill_row str1 str2 n i j dp =
     (if j \<le> n
      then do { dp' \<leftarrow> fill_cell str1 str2 i j dp; fill_row str1 str2 n i (j + 1) dp' }
      else Some dp)"
  by pat_completeness auto
termination
  by (relation "measure (\<lambda>(str1, str2, n, i, j, dp). n + 1 - j)") auto

declare fill_row.simps [simp del]

text \<open>\<^verbatim>\<open>for (let i = 1; i <= m; i++) { for (let j = 1; ...) }\<close>\<close>

function fill_rows :: "'c list \<Rightarrow> 'c list \<Rightarrow> nat \<Rightarrow> nat \<Rightarrow> nat \<Rightarrow> matrix \<Rightarrow> matrix option" where
  "fill_rows str1 str2 m n i dp =
     (if i \<le> m
      then do { dp' \<leftarrow> fill_row str1 str2 n i 1 dp; fill_rows str1 str2 m n (i + 1) dp' }
      else Some dp)"
  by pat_completeness auto
termination
  by (relation "measure (\<lambda>(str1, str2, m, n, i, dp). m + 1 - i)") auto

declare fill_rows.simps [simp del]

subsection \<open>The function\<close>

definition calculateLevenshteinDistance :: "'c list \<Rightarrow> 'c list \<Rightarrow> int option" where
  "calculateLevenshteinDistance str1 str2 =
     (let m = length str1; n = length str2 in
      do {
        dp \<leftarrow> init_rows m 0 Map.empty;
        dp \<leftarrow> init_cols n 0 dp;
        dp \<leftarrow> fill_rows str1 str2 m n 1 dp;
        get_cell dp m n
      })"

section \<open>The specification's notions of edit distance\<close>

text \<open>
  These two definitions follow the words of the specification, not the code. The first is
  its edit operation on a string: the insertion of a character, the deletion of a
  character, or the substitution of a character by another one, at any position.
  \<open>(edit_step ^^ n) a b\<close> says that \<open>n\<close> operations, one after the other, transform \<open>a\<close>
  into \<open>b\<close>.
\<close>

inductive edit_step :: "'c list \<Rightarrow> 'c list \<Rightarrow> bool" where
  insertion: "edit_step (u @ v) (u @ x # v)"
| deletion: "edit_step (u @ x # v) (u @ v)"
| substitution: "x \<noteq> y \<Longrightarrow> edit_step (u @ x # v) (u @ y # v)"

text \<open>
  The second is its recurrence (the distance from the empty string to a string is the
  length; equal last characters cost nothing; otherwise one more than the least of the
  three neighbours), as a function of two strings read from their heads: the cell
  \<open>(i, j)\<close> of the matrix is to hold its value for the first \<open>i\<close> and the first \<open>j\<close>
  characters, read backwards.
\<close>

fun lev :: "'c list \<Rightarrow> 'c list \<Rightarrow> nat" where
  "lev [] ys = length ys"
| "lev xs [] = length xs"
| "lev (x # xs) (y # ys) =
     (if x = y then lev xs ys
      else min (lev xs (y # ys) + 1) (min (lev (x # xs) ys + 1) (lev xs ys + 1)))"

section \<open>Notions used in the statements and proofs\<close>

subsection \<open>Generators that keep producing small numbers\<close>

text \<open>
  \<open>hit_at draw threshold k g\<close>: after \<open>k\<close> calls, starting in state \<open>g\<close>, the next call
  returns a number that the sampler accepts. A generator is \<open>fair\<close> for a threshold when
  that happens sooner or later from every state.
\<close>

definition hit_at :: "('g \<Rightarrow> rat \<times> 'g) \<Rightarrow> rat \<Rightarrow> nat \<Rightarrow> 'g \<Rightarrow> bool" where
  "hit_at draw threshold k g = (fst (draw (((snd \<circ> draw) ^^ k) g)) \<le> threshold)"

definition fair :: "('g \<Rightarrow> rat \<times> 'g) \<Rightarrow> rat \<Rightarrow> bool" where
  "fair draw threshold = (\<forall>g. \<exists>k. hit_at draw threshold k g)"

subsection \<open>The indices behind the sampled items\<close>

text \<open>
  \<open>chosen items s idxs\<close>: the sampled items are the items at the positions \<open>idxs\<close>, in
  the order they were pushed, no position occurs twice among them, and they are the
  recorded set of indices. \<open>eligible\<close> counts the entries for which a pass draws a number.
\<close>

definition chosen :: "'a list \<Rightarrow> ('a, 'g) sampler \<Rightarrow> nat list \<Rightarrow> bool" where
  "chosen items s idxs =
     (distinct idxs \<and> set idxs = sampledIndexes s \<and> (\<forall>i \<in> set idxs. i < length items)
      \<and> sampledItems s = map (nth items) idxs)"

definition good :: "bool \<Rightarrow> 'a list \<Rightarrow> ('a, 'g) sampler \<Rightarrow> bool" where
  "good replace items s = (replace \<or> (\<exists>idxs. chosen items s idxs))"

definition eligible :: "bool \<Rightarrow> ('a, 'g) sampler \<Rightarrow> (nat \<times> 'a) list \<Rightarrow> nat" where
  "eligible replace s entries =
     length (filter (\<lambda>(i, item). replace \<or> i \<notin> sampledIndexes s) entries)"

subsection \<open>The same sampler state over another generator state\<close>

definition with_rng :: "('g \<Rightarrow> 'h) \<Rightarrow> ('a, 'g) sampler \<Rightarrow> ('a, 'h) sampler" where
  "with_rng f s = \<lparr>sampledItems = sampledItems s, sampledIndexes = sampledIndexes s, rng = f (rng s)\<rparr>"

subsection \<open>What the matrix holds\<close>

text \<open>
  \<open>cell_value str1 str2 i j\<close> is the number that belongs in the cell \<open>(i, j)\<close>.
  \<open>table_ok str1 str2 dp i j\<close>: every row up to \<open>length str1\<close> exists, and row 0, column 0
  and every cell before \<open>(i, j)\<close> in the order of the two nested loops hold their numbers.
\<close>

definition cell_value :: "'c list \<Rightarrow> 'c list \<Rightarrow> nat \<Rightarrow> nat \<Rightarrow> int" where
  "cell_value str1 str2 i j = int (lev (rev (take i str1)) (rev (take j str2)))"

definition table_ok :: "'c list \<Rightarrow> 'c list \<Rightarrow> matrix \<Rightarrow> nat \<Rightarrow> nat \<Rightarrow> bool" where
  "table_ok str1 str2 dp i j =
     ((\<forall>k \<le> length str1. dp k \<noteq> None)
      \<and> (\<forall>i' j'. i' \<le> length str1 \<longrightarrow> j' \<le> length str2 \<longrightarrow>
             (i' = 0 \<or> j' = 0 \<or> i' < i \<or> (i' = i \<and> j' < j)) \<longrightarrow>
             get_cell dp i' j' = Some (cell_value str1 str2 i' j')))"

subsection \<open>Partial sums of the powers of the multiplier\<close>

fun geo :: "nat \<Rightarrow> nat" where
  "geo 0 = 0"
| "geo (Suc k) = 1664525 * geo k + 1"

section \<open>Properties of chunk\<close>

subsection \<open>The loop returns a partition into runs of the given size\<close>

lemma slice_as_take:
  "slice array (of_nat i) (of_nat i + of_nat sz) = take sz (drop i array)"
proof -
  have s: "trunc (of_nat i) = int i" and e: "trunc (of_nat i + of_nat sz) = int (i + sz)"
    by (simp_all add: trunc_def flip: of_nat_add)
  show ?thesis
  proof (cases "i \<le> length array")
    case True
    then have "nat (min (int (i + sz)) (int (length array)) - int i) = min sz (length array - i)"
      by (simp add: min_def) linarith
    with True show ?thesis
      unfolding slice_def Let_def s e by (simp add: min_def)
  next
    case False
    then show ?thesis
      unfolding slice_def Let_def s e by (simp add: min_def)
  qed
qed

lemma chunk_loop_returns:
  assumes "0 < sz"
  shows "\<exists>cs. chunk_loop array (of_nat sz) (of_nat i) result = Some (result @ cs)
           \<and> concat cs = drop i array
           \<and> (\<forall>c \<in> set (butlast cs). length c = sz)
           \<and> (cs \<noteq> [] \<longrightarrow> 1 \<le> length (last cs) \<and> length (last cs) \<le> sz)
           \<and> (cs = [] \<longleftrightarrow> length array \<le> i)"
proof (induction "length array - i" arbitrary: i result rule: less_induct)
  case less
  have cond: "((of_nat i :: rat) < of_nat (length array)) = (i < length array)"
    by (rule of_nat_less_iff)
  show ?case
  proof (cases "i < length array")
    case False
    then have "chunk_loop array (of_nat sz) (of_nat i) result = Some (result @ [])"
      by (subst chunk_loop.simps) (simp only: cond if_False append_Nil2)
    with False show ?thesis by auto
  next
    case True
    let ?c = "slice array (of_nat i) (of_nat i + of_nat sz)"
    have "length array - (i + sz) < length array - i"
      using True assms by arith
    from less[OF this, of "result @ [?c]"]
    obtain cs where cs:
      "chunk_loop array (of_nat sz) (of_nat (i + sz)) (result @ [?c]) = Some ((result @ [?c]) @ cs)"
      "concat cs = drop (i + sz) array"
      "\<forall>c \<in> set (butlast cs). length c = sz"
      "cs \<noteq> [] \<longrightarrow> 1 \<le> length (last cs) \<and> length (last cs) \<le> sz"
      "cs = [] \<longleftrightarrow> length array \<le> i + sz"
      by blast
    have run: "chunk_loop array (of_nat sz) (of_nat i) result = Some (result @ (?c # cs))"
      using True cs(1) by (subst chunk_loop.simps) (simp add: cond)
    have c_len: "length ?c = min sz (length array - i)"
      by (simp add: slice_as_take)
    have cat: "concat (?c # cs) = drop i array"
    proof -
      have "take sz (drop i array) @ drop sz (drop i array) = drop i array"
        by (rule append_take_drop_id)
      moreover have "drop sz (drop i array) = drop (i + sz) array"
        by (simp add: add.commute)
      ultimately show ?thesis
        using cs(2) by (simp only: concat.simps slice_as_take)
    qed
    have full: "\<forall>c \<in> set (butlast (?c # cs)). length c = sz"
      using cs(3) cs(5) c_len by auto
    have lst: "1 \<le> length (last (?c # cs)) \<and> length (last (?c # cs)) \<le> sz"
      using cs(4) c_len True assms by auto
    from run cat full lst True show ?thesis
      by (intro exI[of _ "?c # cs"]) simp
  qed
qed

section \<open>Properties of the sampling loops\<close>

lemma hit_at_0: "hit_at draw thr 0 g = (fst (draw g) \<le> thr)"
  by (simp add: hit_at_def)

lemma hit_at_Suc: "hit_at draw thr (Suc k) g = hit_at draw thr k (snd (draw g))"
  by (simp add: hit_at_def funpow_swap1)

lemma scan_length_mono:
  "length (sampledItems s) \<le> length (sampledItems (scan draw r T thr es s))"
proof (induction es arbitrary: s)
  case Nil
  show ?case by simp
next
  case (Cons e es)
  obtain i x where e: "e = (i, x)" by (cases e)
  obtain u g where d: "draw (rng s) = (u, g)" by (cases "draw (rng s)")
  let ?s' = "\<lparr>sampledItems = sampledItems s @ [x],
              sampledIndexes = insert i (sampledIndexes s), rng = g\<rparr>"
  have a: "length (sampledItems s) \<le> length (sampledItems (scan draw r T thr es ?s'))"
    using Cons.IH[of ?s'] by simp
  have b: "length (sampledItems s) \<le> length (sampledItems (scan draw r T thr es (s\<lparr>rng := g\<rparr>)))"
    using Cons.IH[of "s\<lparr>rng := g\<rparr>"] by simp
  show ?case
    using a b Cons.IH[of s] by (auto simp add: e d Let_def)
qed

lemma scan_length_bound:
  "int (length (sampledItems s)) < T \<Longrightarrow>
   int (length (sampledItems (scan draw r T thr es s))) \<le> T"
proof (induction es arbitrary: s)
  case Nil
  then show ?case by simp
next
  case (Cons e es)
  obtain i x where e: "e = (i, x)" by (cases e)
  obtain u g where d: "draw (rng s) = (u, g)" by (cases "draw (rng s)")
  let ?s' = "\<lparr>sampledItems = sampledItems s @ [x],
              sampledIndexes = insert i (sampledIndexes s), rng = g\<rparr>"
  have a: "\<not> T \<le> int (length (sampledItems ?s')) \<Longrightarrow>
      int (length (sampledItems (scan draw r T thr es ?s'))) \<le> T"
    using Cons.IH[of ?s'] by simp
  have b: "int (length (sampledItems (scan draw r T thr es (s\<lparr>rng := g\<rparr>)))) \<le> T"
    using Cons.IH[of "s\<lparr>rng := g\<rparr>"] Cons.prems by simp
  show ?case
    using a b Cons.IH[of s] Cons.prems by (auto simp add: e d Let_def)
qed

lemma scan_chosen:
  assumes "\<forall>(i, x) \<in> set es. i < length items \<and> x = items ! i"
    and "chosen items s idxs"
  shows "\<exists>idxs'. chosen items (scan draw False T thr es s) idxs'"
  using assms
proof (induction es arbitrary: s idxs)
  case Nil
  then show ?case by auto
next
  case (Cons e es)
  obtain i x where e: "e = (i, x)" by (cases e)
  obtain u g where d: "draw (rng s) = (u, g)" by (cases "draw (rng s)")
  from Cons.prems(1) e have ix: "i < length items" "x = items ! i"
    and rest: "\<forall>(i, x) \<in> set es. i < length items \<and> x = items ! i"
    by auto
  let ?s' = "\<lparr>sampledItems = sampledItems s @ [x],
              sampledIndexes = insert i (sampledIndexes s), rng = g\<rparr>"
  have c1: "chosen items (s\<lparr>rng := g\<rparr>) idxs"
    using Cons.prems(2) by (simp add: chosen_def)
  have c2: "i \<notin> sampledIndexes s \<Longrightarrow> chosen items ?s' (idxs @ [i])"
    using Cons.prems(2) ix by (auto simp add: chosen_def)
  show ?case
    using Cons.IH[OF rest Cons.prems(2)] Cons.IH[OF rest c1] Cons.IH[OF rest c2] c2
    by (auto simp add: e d Let_def)
qed

lemma scan_progress:
  assumes "hit_at draw thr k (rng s)"
  shows "length (sampledItems s) < length (sampledItems (scan draw r T thr es s))
       \<or> (sampledItems (scan draw r T thr es s) = sampledItems s
          \<and> sampledIndexes (scan draw r T thr es s) = sampledIndexes s
          \<and> eligible r s es \<le> k
          \<and> hit_at draw thr (k - eligible r s es) (rng (scan draw r T thr es s)))"
  using assms
proof (induction es arbitrary: s k)
  case Nil
  then show ?case by (simp add: eligible_def)
next
  case (Cons e es)
  obtain i x where e: "e = (i, x)" by (cases e)
  obtain u g where d: "draw (rng s) = (u, g)" by (cases "draw (rng s)")
  show ?case
  proof (cases "r \<or> i \<notin> sampledIndexes s")
    case False
    then have "scan draw r T thr (e # es) s = scan draw r T thr es s"
      and "eligible r s (e # es) = eligible r s es"
      by (auto simp add: e eligible_def)
    with Cons.IH[OF Cons.prems] show ?thesis by simp
  next
    case True
    then have el: "eligible r s (e # es) = Suc (eligible r s es)"
      by (auto simp add: e eligible_def)
    show ?thesis
    proof (cases "u \<le> thr")
      case True
      let ?s' = "\<lparr>sampledItems = sampledItems s @ [x],
                  sampledIndexes = insert i (sampledIndexes s), rng = g\<rparr>"
      have "length (sampledItems ?s') \<le> length (sampledItems (scan draw r T thr es ?s'))"
        by (rule scan_length_mono)
      then have "length (sampledItems s) < length (sampledItems (scan draw r T thr (e # es) s))"
        using True \<open>r \<or> i \<notin> sampledIndexes s\<close> by (auto simp add: e d Let_def)
      then show ?thesis ..
    next
      case False
      let ?s1 = "s\<lparr>rng := g\<rparr>"
      have sc: "scan draw r T thr (e # es) s = scan draw r T thr es ?s1"
        using False \<open>r \<or> i \<notin> sampledIndexes s\<close> by (auto simp add: e d)
      have "k \<noteq> 0"
      proof
        assume "k = 0"
        with Cons.prems have "fst (draw (rng s)) \<le> thr"
          by (simp add: hit_at_0)
        with False d show False by simp
      qed
      then obtain k' where k: "k = Suc k'" by (cases k) auto
      have "hit_at draw thr k' (rng ?s1)"
        using Cons.prems d by (simp add: k hit_at_Suc)
      from Cons.IH[OF this]
      have "length (sampledItems ?s1) < length (sampledItems (scan draw r T thr es ?s1))
         \<or> (sampledItems (scan draw r T thr es ?s1) = sampledItems ?s1
            \<and> sampledIndexes (scan draw r T thr es ?s1) = sampledIndexes ?s1
            \<and> eligible r ?s1 es \<le> k'
            \<and> hit_at draw thr (k' - eligible r ?s1 es) (rng (scan draw r T thr es ?s1)))" .
      moreover have "eligible r ?s1 es = eligible r s es"
        by (simp add: eligible_def)
      ultimately show ?thesis
        by (auto simp add: sc el k)
    qed
  qed
qed

lemma entries_of_items:
  "\<forall>(i, x) \<in> set (enumerate 0 items). i < length items \<and> x = items ! i"
  by (auto simp add: in_set_enumerate_eq)

lemma scan_good:
  assumes "good r items s"
  shows "good r items (scan draw r T thr (enumerate 0 items) s)"
proof (cases r)
  case True
  then show ?thesis by (simp add: good_def)
next
  case False
  then show ?thesis
    using assms scan_chosen[OF entries_of_items, of items s _ draw T thr]
    by (auto simp add: good_def)
qed

lemma some_eligible:
  assumes "good r items s" and "length (sampledItems s) < length items"
  shows "0 < eligible r s (enumerate 0 items)"
proof -
  have "\<exists>i < length items. r \<or> i \<notin> sampledIndexes s"
  proof (cases r)
    case True
    with assms(2) show ?thesis by (intro exI[of _ 0]) auto
  next
    case False
    with assms(1) obtain idxs where c: "chosen items s idxs"
      by (auto simp add: good_def)
    then have "card (sampledIndexes s) = length (sampledItems s)"
      by (metis chosen_def distinct_card length_map)
    with assms(2) have "card (sampledIndexes s) < card {..<length items}"
      by simp
    moreover have "finite (sampledIndexes s)"
      using c by (metis chosen_def List.finite_set)
    ultimately have "\<not> {..<length items} \<subseteq> sampledIndexes s"
      by (metis card_mono not_less)
    then show ?thesis by auto
  qed
  then obtain i where i: "i < length items" "r \<or> i \<notin> sampledIndexes s"
    by blast
  then have "(i, items ! i) \<in> set (filter (\<lambda>(i, item). r \<or> i \<notin> sampledIndexes s)
      (enumerate 0 items))"
    by (simp add: in_set_enumerate_eq)
  then show ?thesis
    unfolding eligible_def by (metis length_pos_if_in_set)
qed

lemma sample_loop_returns:
  assumes fair: "fair draw thr" and T: "T \<le> int (length items)"
  shows "good r items s \<Longrightarrow>
    \<exists>s'. sample_loop draw r T thr items s = Some s' \<and> good r items s'
       \<and> int (length (sampledItems s')) = max T (int (length (sampledItems s)))"
proof (induction "nat (T - int (length (sampledItems s)))" arbitrary: s rule: less_induct)
  case less
  note outer = less.hyps
  from fair obtain k0 where "hit_at draw thr k0 (rng s)"
    unfolding fair_def by blast
  moreover
  have "hit_at draw thr k (rng t) \<Longrightarrow> good r items t \<Longrightarrow>
        length (sampledItems t) = length (sampledItems s) \<Longrightarrow>
        \<exists>s'. sample_loop draw r T thr items t = Some s' \<and> good r items s'
           \<and> int (length (sampledItems s')) = max T (int (length (sampledItems t)))" for k t
  proof (induction k arbitrary: t rule: less_induct)
    case (less k)
    show ?case
    proof (cases "int (length (sampledItems t)) < T")
      case False
      then have "sample_loop draw r T thr items t = Some t"
        by (subst sample_loop.simps) simp
      with False less.prems(2) show ?thesis by simp
    next
      case True
      let ?t1 = "scan draw r T thr (enumerate 0 items) t"
      have unfold: "sample_loop draw r T thr items t = sample_loop draw r T thr items ?t1"
        using True by (subst sample_loop.simps) simp
      have g1: "good r items ?t1"
        using less.prems(2) by (rule scan_good)
      have bound: "int (length (sampledItems ?t1)) \<le> T"
        using True by (rule scan_length_bound)
      have mono: "length (sampledItems t) \<le> length (sampledItems ?t1)"
        by (rule scan_length_mono)
      have "\<exists>s'. sample_loop draw r T thr items ?t1 = Some s' \<and> good r items s'
           \<and> int (length (sampledItems s')) = max T (int (length (sampledItems ?t1)))"
      proof (cases "length (sampledItems t) < length (sampledItems ?t1)")
        case True
        then have "nat (T - int (length (sampledItems ?t1)))
                 < nat (T - int (length (sampledItems s)))"
          using bound less.prems(3) \<open>int (length (sampledItems t)) < T\<close> by linarith
        from outer[OF this g1] show ?thesis .
      next
        case False
        with scan_progress[OF less.prems(1), of r T "enumerate 0 items"]
        have same: "sampledItems ?t1 = sampledItems t"
          and el: "eligible r t (enumerate 0 items) \<le> k"
          and hit: "hit_at draw thr (k - eligible r t (enumerate 0 items)) (rng ?t1)"
          by auto
        have "length (sampledItems t) < length items"
          using True T by linarith
        with less.prems(2) have "0 < eligible r t (enumerate 0 items)"
          by (rule some_eligible)
        with el have "k - eligible r t (enumerate 0 items) < k"
          by linarith
        from less.IH[OF this hit g1] same less.prems(3) show ?thesis
          by simp
      qed
      then obtain s' where s': "sample_loop draw r T thr items ?t1 = Some s'"
        "good r items s'"
        "int (length (sampledItems s')) = max T (int (length (sampledItems ?t1)))"
        by blast
      have "max T (int (length (sampledItems ?t1))) = T"
        using bound by simp
      moreover have "max T (int (length (sampledItems t))) = T"
        using True by simp
      ultimately show ?thesis
        using s' unfold by simp
    qed
  qed
  ultimately show ?case
    using less.prems by blast
qed

lemma scan_all_accepted:
  assumes "\<forall>g. fst (draw g) \<le> thr"
    and "sampledIndexes s = {..<k}" and "length (sampledItems s) = k"
    and "T = int (k + length xs)" and "xs \<noteq> []"
  shows "sampledItems (scan draw r T thr (enumerate k xs) s) = sampledItems s @ xs"
  using assms(2-)
proof (induction xs arbitrary: k s)
  case Nil
  then show ?case by simp
next
  case (Cons x xs)
  obtain u g where d: "draw (rng s) = (u, g)" by (cases "draw (rng s)")
  with assms(1) have u: "u \<le> thr" by (metis fst_conv)
  let ?s' = "\<lparr>sampledItems = sampledItems s @ [x],
              sampledIndexes = insert k (sampledIndexes s), rng = g\<rparr>"
  have el: "r \<or> k \<notin> sampledIndexes s"
    using Cons.prems(1) by simp
  show ?case
  proof (cases "xs = []")
    case True
    then show ?thesis
      using el u d Cons.prems by (simp add: Let_def)
  next
    case False
    have "sampledItems (scan draw r T thr (enumerate (Suc k) xs) ?s') = sampledItems ?s' @ xs"
      using Cons.prems False by (intro Cons.IH) (auto simp add: lessThan_Suc)
    moreover have "\<not> T \<le> int (length (sampledItems ?s'))"
      using Cons.prems False by (cases xs) auto
    ultimately show ?thesis
      using el u d by (simp add: Let_def)
  qed
qed

section \<open>The generator of d3-random visits every state\<close>

lemma odd_word_cancel:
  fixes c x :: "'a::len word"
  assumes "odd c" and "c * x = 0"
  shows "x = 0"
proof -
  have "odd (unat c)"
  proof
    assume "even (unat c)"
    then obtain k where "unat c = 2 * k" by (elim evenE)
    then have "word_of_nat (unat c) = (word_of_nat (2 * k) :: 'a word)" by simp
    then have "c = 2 * word_of_nat k" by simp
    with assms(1) show False by simp
  qed
  then have cop: "coprime (2 ^ LENGTH('a)) (unat c)"
    by simp
  have "unat (c * x) = 0"
    using assms(2) by simp
  then have "2 ^ LENGTH('a) dvd unat c * unat x"
    by (simp add: unat_word_ariths(2) mod_eq_0_iff_dvd)
  with cop have "2 ^ LENGTH('a) dvd unat x"
    by (simp add: coprime_dvd_mult_right_iff)
  moreover have "unat x < 2 ^ LENGTH('a)"
    by simp
  ultimately have "unat x = 0"
    by (meson dvd_imp_le not_less zero_less_iff_neq_zero)
  then show ?thesis
    by (simp add: unat_eq_0)
qed

lemma geo_add: "geo (j + k) = 1664525 ^ j * geo k + geo j"
  by (induction j) (simp_all add: algebra_simps)

lemma geo_parity: "even (geo k) \<longleftrightarrow> even k"
  by (induction k) simp_all

lemma pow_mod4: "(1664525::nat) ^ k mod 4 = 1"
proof (induction k)
  case 0
  show ?case by simp
next
  case (Suc k)
  have "(1664525::nat) ^ Suc k mod 4 = (1664525 mod 4) * (1664525 ^ k mod 4) mod 4"
    unfolding power_Suc by (rule mod_mult_eq[symmetric])
  with Suc show ?case by simp
qed

lemma pow_plus_one: "\<exists>q. odd q \<and> (1664525::nat) ^ k + 1 = 2 * q"
proof -
  have "((1664525::nat) ^ k + 1) mod 4 = 2"
    using pow_mod4[of k] by presburger
  then have "odd (((1664525::nat) ^ k + 1) div 2)" and "even ((1664525::nat) ^ k + 1)"
    by presburger+
  then show ?thesis
    by (intro exI[of _ "((1664525::nat) ^ k + 1) div 2"]) simp
qed

lemma geo_dvd: "2 ^ m dvd geo k \<longleftrightarrow> 2 ^ m dvd k"
proof (induction m arbitrary: k)
  case 0
  show ?case by simp
next
  case (Suc m)
  show ?case
  proof (cases "even k")
    case False
    then have "odd (geo k)" by (simp add: geo_parity)
    with False show ?thesis
      by (metis dvd_power dvd_trans zero_less_Suc)
  next
    case True
    then obtain e where k: "k = e + e" by (metis evenE mult_2)
    obtain q where q: "odd q" "(1664525::nat) ^ e + 1 = 2 * q"
      using pow_plus_one by blast
    have "geo k = geo e * (1664525 ^ e + 1)"
      by (simp add: k geo_add algebra_simps)
    then have "geo k = 2 * (geo e * q)"
      using q(2) by (simp only: mult.assoc mult.left_commute)
    then have "2 ^ Suc m dvd geo k \<longleftrightarrow> 2 ^ m dvd geo e * q"
      by simp
    also have "\<dots> \<longleftrightarrow> 2 ^ m dvd geo e"
      using q(1) by (simp add: coprime_dvd_mult_left_iff)
    also have "\<dots> \<longleftrightarrow> 2 ^ m dvd e"
      by (rule Suc.IH)
    also have "\<dots> \<longleftrightarrow> 2 ^ Suc m dvd k"
      by (simp add: k flip: mult_2)
    finally show ?thesis .
  qed
qed

lemma lcg_funpow:
  "(lcg_step ^^ k) g = mul ^ k * g + inc * word_of_nat (geo k)"
  by (induction k) (simp_all add: lcg_step_def mul_def algebra_simps)

lemma mul_power: "mul ^ k = (mul - 1) * word_of_nat (geo k) + 1"
  by (induction k) (simp_all add: mul_def algebra_simps)

lemma lcg_cycle:
  assumes "(lcg_step ^^ d) g = g"
  shows "2 ^ 32 dvd d"
proof -
  let ?c = "(mul - 1) * g + inc"
  have "odd ?c"
    by (simp add: mul_def inc_def)
  moreover have "?c * word_of_nat (geo d) = 0"
  proof -
    have "?c * word_of_nat (geo d) = (lcg_step ^^ d) g - g"
      by (simp add: lcg_funpow mul_power[of d] algebra_simps)
    with assms show ?thesis by simp
  qed
  ultimately have "(word_of_nat (geo d) :: 32 word) = 0"
    by (rule odd_word_cancel)
  then have "2 ^ LENGTH(32) dvd geo d"
    by (simp only: word_of_nat_eq_0_iff)
  then have "2 ^ 32 dvd geo d"
    by simp
  then show ?thesis
    by (simp only: geo_dvd)
qed

lemma lcg_step_inj: "inj lcg_step"
proof (rule injI)
  fix x y :: "32 word"
  assume "lcg_step x = lcg_step y"
  then have "mul * (x - y) = 0"
    by (simp add: lcg_step_def algebra_simps)
  moreover have "odd mul" by (simp add: mul_def)
  ultimately have "x - y = 0" by (rule odd_word_cancel[rotated])
  then show "x = y" by simp
qed

lemma lcg_orbit_inj: "inj_on (\<lambda>k. (lcg_step ^^ k) g) {..<2 ^ 32}"
proof (rule linorder_inj_onI)
  fix j k :: nat
  assume jk: "j < k" and "j \<in> {..<2 ^ 32}" and k: "k \<in> {..<2 ^ 32}"
  show "(lcg_step ^^ j) g \<noteq> (lcg_step ^^ k) g"
  proof
    assume eq: "(lcg_step ^^ j) g = (lcg_step ^^ k) g"
    have "(lcg_step ^^ k) g = (lcg_step ^^ j) ((lcg_step ^^ (k - j)) g)"
      using jk funpow_add[of j "k - j" lcg_step] by simp
    with eq have "(lcg_step ^^ (k - j)) g = g"
      using inj_fn[OF lcg_step_inj, of j] by (metis injD)
    then have "(2::nat) ^ 32 dvd k - j" by (rule lcg_cycle)
    moreover have "0 < k - j" "k - j < 2 ^ 32"
      using jk k by auto
    ultimately show False
      by (meson dvd_imp_le not_less)
  qed
qed auto

lemma lcg_orbit_full: "\<exists>k. (lcg_step ^^ k) g = t"
proof -
  let ?f = "\<lambda>k. (lcg_step ^^ k) g"
  have "card (?f ` {..<2 ^ 32}) = 2 ^ 32"
    using lcg_orbit_inj by (simp add: card_image)
  also have "\<dots> = card (UNIV :: 32 word set)"
    by (simp add: card_word)
  finally have "?f ` {..<2 ^ 32} = UNIV"
    by (intro card_subset_eq) simp_all
  then show ?thesis
    by (metis (mono_tags, lifting) UNIV_I image_iff)
qed

lemma myRandomUniform_step: "snd \<circ> myRandomUniform = lcg_step"
  by (rule ext) (simp add: myRandomUniform_def Let_def)

lemma myRandomUniform_range: "0 \<le> fst (myRandomUniform g) \<and> fst (myRandomUniform g) < 1"
proof -
  have "uint (lcg_step g) < 2 ^ 32"
    using uint_bounded[of "lcg_step g"] by simp
  then have "(of_int (uint (lcg_step g)) :: rat) < 2 ^ 32"
    by (metis of_int_less_numeral_power_cancel_iff)
  moreover have "(0::rat) \<le> of_int (uint (lcg_step g))"
    by (simp only: of_int_0_le_iff uint_ge_0)
  ultimately show ?thesis
    by (simp add: myRandomUniform_def Let_def del: of_int_uint)
qed

lemma myRandomUniform_zero:
  "\<exists>k. fst (myRandomUniform (((snd \<circ> myRandomUniform) ^^ k) g)) = 0"
proof -
  obtain k where "(lcg_step ^^ k) (lcg_step g) = 0"
    using lcg_orbit_full by blast
  then have "lcg_step ((lcg_step ^^ k) g) = 0"
    by (simp add: funpow_swap1)
  then have "fst (myRandomUniform ((lcg_step ^^ k) g)) = 0"
    by (simp add: myRandomUniform_def Let_def)
  then show ?thesis
    unfolding myRandomUniform_step by blast
qed

lemma myRandomUniform_fair:
  assumes "0 \<le> thr"
  shows "fair myRandomUniform thr"
  unfolding fair_def hit_at_def
proof
  fix g
  obtain k where "fst (myRandomUniform (((snd \<circ> myRandomUniform) ^^ k) g)) = 0"
    using myRandomUniform_zero by blast
  with assms show "\<exists>k. fst (myRandomUniform (((snd \<circ> myRandomUniform) ^^ k) g)) \<le> thr"
    by (intro exI[of _ k]) simp
qed

section \<open>Edit steps and the recurrence\<close>

lemma edit_step_Cons: "edit_step ys zs \<Longrightarrow> edit_step (a # ys) (a # zs)"
proof (induction rule: edit_step.induct)
  case (insertion u v x)
  show ?case using edit_step.insertion[of "a # u" v x] by simp
next
  case (deletion u x v)
  show ?case using edit_step.deletion[of "a # u" x v] by simp
next
  case (substitution x y u v)
  then show ?case using edit_step.substitution[of x y "a # u" v] by simp
qed

lemma edit_step_rev: "edit_step ys zs \<Longrightarrow> edit_step (rev ys) (rev zs)"
proof (induction rule: edit_step.induct)
  case (insertion u v x)
  show ?case using edit_step.insertion[of "rev v" "rev u" x] by simp
next
  case (deletion u x v)
  show ?case using edit_step.deletion[of "rev v" x "rev u"] by simp
next
  case (substitution x y u v)
  then show ?case using edit_step.substitution[of x y "rev v" "rev u"] by simp
qed

lemma edit_step_length: "edit_step ys zs \<Longrightarrow> length zs \<le> length ys + 1"
  by (induction rule: edit_step.induct) auto

lemma edit_step_cases_head:
  assumes "edit_step ys zs"
  shows "(\<exists>x. zs = x # ys) \<or> (\<exists>x. ys = x # zs)
       \<or> (\<exists>x y t. x \<noteq> y \<and> ys = x # t \<and> zs = y # t)
       \<or> (\<exists>a ys' zs'. ys = a # ys' \<and> zs = a # zs' \<and> edit_step ys' zs')"
  using assms
proof (induction rule: edit_step.induct)
  case (insertion u v x)
  show ?case
  proof (cases u)
    case Nil
    then show ?thesis by simp
  next
    case (Cons a u')
    then show ?thesis using edit_step.insertion[of u' v x] by simp
  qed
next
  case (deletion u x v)
  show ?case
  proof (cases u)
    case Nil
    then show ?thesis by simp
  next
    case (Cons a u')
    then show ?thesis using edit_step.deletion[of u' x v] by simp
  qed
next
  case (substitution x y u v)
  show ?case
  proof (cases u)
    case Nil
    with substitution show ?thesis by simp
  next
    case (Cons a u')
    then show ?thesis using edit_step.substitution[OF substitution, of u' v] by simp
  qed
qed

lemma edits_Cons: "(edit_step ^^ n) ys zs \<Longrightarrow> (edit_step ^^ n) (a # ys) (a # zs)"
proof (induction n arbitrary: zs)
  case 0
  then show ?case by simp
next
  case (Suc n)
  from Suc.prems obtain w where w: "(edit_step ^^ n) ys w" "edit_step w zs"
    by (rule relpowp_Suc_E)
  from w(1) have "(edit_step ^^ n) (a # ys) (a # w)"
    by (rule Suc.IH)
  moreover from w(2) have "edit_step (a # w) (a # zs)"
    by (rule edit_step_Cons)
  ultimately show ?case
    by (rule relpowp_Suc_I)
qed

lemma edits_rev: "(edit_step ^^ n) ys zs \<Longrightarrow> (edit_step ^^ n) (rev ys) (rev zs)"
proof (induction n arbitrary: zs)
  case 0
  then show ?case by simp
next
  case (Suc n)
  from Suc.prems obtain w where w: "(edit_step ^^ n) ys w" "edit_step w zs"
    by (rule relpowp_Suc_E)
  from w(1) have "(edit_step ^^ n) (rev ys) (rev w)"
    by (rule Suc.IH)
  moreover from w(2) have "edit_step (rev w) (rev zs)"
    by (rule edit_step_rev)
  ultimately show ?case
    by (rule relpowp_Suc_I)
qed

lemma le_min3:
  fixes a p q r :: nat
  shows "a \<le> p + 1 \<Longrightarrow> a \<le> q + 1 \<Longrightarrow> a \<le> r + 1 \<Longrightarrow> a \<le> min p (min q r) + 1"
  by (simp add: min_def)

lemma min3_mono:
  fixes a b c a' b' c' :: nat
  shows "a \<le> a' + 1 \<Longrightarrow> b \<le> b' + 1 \<Longrightarrow> c \<le> c' + 1 \<Longrightarrow>
    min (a + 1) (min (b + 1) (c + 1)) \<le> min (a' + 1) (min (b' + 1) (c' + 1)) + 1"
  by (simp add: min_def)

lemma min3_cases:
  fixes a b c :: nat
  shows "min a (min b c) = a \<or> min a (min b c) = b \<or> min a (min b c) = c"
  by (simp add: min_def)

lemma lev_Cons_min:
  "x \<noteq> y \<Longrightarrow> lev (x # xs) (y # ys)
     = min (lev xs (y # ys) + 1) (min (lev (x # xs) ys + 1) (lev xs ys + 1))"
  by simp

lemma lev_Cons_eq: "lev (x # xs) (x # ys) = lev xs ys"
  by simp

lemma lev_sym: "lev xs ys = lev ys xs"
proof (induction xs ys rule: lev.induct)
  case (1 ys)
  show ?case by (cases ys) simp_all
next
  case (2 x xs)
  show ?case by simp
next
  case (3 x xs y ys)
  show ?case
  proof (cases "x = y")
    case True
    with "3.IH"(1) show ?thesis by simp
  next
    case False
    with "3.IH"(2-4) have "lev xs (y # ys) = lev (y # ys) xs"
      "lev (x # xs) ys = lev ys (x # xs)" "lev xs ys = lev ys xs"
      by blast+
    then show ?thesis
      by (simp only: lev_Cons_min[OF False] lev_Cons_min[OF False[symmetric]]
          min.commute min.left_commute)
  qed
qed

lemma lev_refl: "lev xs xs = 0"
  by (induction xs) simp_all

lemma lev_Nil2: "lev xs [] = length xs"
  by (cases xs) simp_all

lemma lev_diag: "lev (x # xs) (z # ys) \<le> lev xs ys + 1"
  by (simp add: min_le_iff_disj)

lemma lev_head:
  "lev xs (y # ys) \<le> lev xs ys + 1 \<and> lev xs ys \<le> lev xs (y # ys) + 1"
proof (induction "length xs + length ys" arbitrary: xs ys y rule: less_induct)
  case less
  show ?case
  proof (cases xs)
    case Nil
    then show ?thesis by simp
  next
    case (Cons x xs')
    have "length ys + length xs' < length xs + length ys"
      using Cons by simp
    from less[OF this, of x]
    have "lev ys (x # xs') \<le> lev ys xs' + 1" and "lev ys xs' \<le> lev ys (x # xs') + 1"
      by blast+
    then have g1: "lev (x # xs') ys \<le> lev xs' ys + 1"
      and g2: "lev xs' ys \<le> lev (x # xs') ys + 1"
      by (simp_all only: lev_sym[of ys])
    have "length xs' + length ys < length xs + length ys"
      using Cons by simp
    from less[OF this, of y]
    have f2: "lev xs' ys \<le> lev xs' (y # ys) + 1"
      by blast
    have ins: "lev (x # xs') (y # ys) \<le> lev (x # xs') ys + 1"
    proof (cases "x = y")
      case True
      with g2 show ?thesis by (simp only: lev_Cons_eq)
    next
      case False
      show ?thesis
        unfolding lev_Cons_min[OF False] by (rule min.coboundedI2, rule min.cobounded1)
    qed
    have del: "lev (x # xs') ys \<le> lev (x # xs') (y # ys) + 1"
    proof (cases "x = y")
      case True
      with g1 show ?thesis by (simp only: lev_Cons_eq)
    next
      case False
      have "lev (x # xs') ys \<le> lev xs' (y # ys) + 1 + 1"
        using g1 f2 by linarith
      moreover have "lev (x # xs') ys \<le> lev (x # xs') ys + 1 + 1"
        by simp
      moreover have "lev (x # xs') ys \<le> lev xs' ys + 1 + 1"
        using g1 by linarith
      ultimately have "lev (x # xs') ys
          \<le> min (lev xs' (y # ys) + 1) (min (lev (x # xs') ys + 1) (lev xs' ys + 1)) + 1"
        by (rule le_min3)
      then show ?thesis by (simp only: lev_Cons_min[OF False])
    qed
    from ins del show ?thesis unfolding Cons ..
  qed
qed

lemma lev_Cons2: "lev xs (y # ys) \<le> lev xs ys + 1"
  using lev_head[of xs y ys] by (rule conjunct1)

lemma lev_tl2: "lev xs ys \<le> lev xs (y # ys) + 1"
  using lev_head[of xs y ys] by (rule conjunct2)

lemma lev_subst_head: "lev xs (z # ys) \<le> lev xs (y # ys) + 1"
proof (cases xs)
  case Nil
  then show ?thesis by simp
next
  case (Cons x xs')
  have a: "lev (x # xs') (z # ys) \<le> lev xs' ys + 1" by (rule lev_diag)
  have b: "lev xs' ys \<le> lev xs' (y # ys) + 1" by (rule lev_tl2)
  have c: "lev (x # xs') (z # ys) \<le> lev (x # xs') ys + 1" by (rule lev_Cons2)
  have "lev (x # xs') (z # ys) \<le> lev (x # xs') (y # ys) + 1"
  proof (cases "x = y")
    case True
    with a show ?thesis by (simp only: lev_Cons_eq)
  next
    case False
    have "lev (x # xs') (z # ys) \<le> lev xs' (y # ys) + 1 + 1"
      using a b by linarith
    moreover have "lev (x # xs') (z # ys) \<le> lev (x # xs') ys + 1 + 1"
      using c by linarith
    moreover have "lev (x # xs') (z # ys) \<le> lev xs' ys + 1 + 1"
      using a by linarith
    ultimately have "lev (x # xs') (z # ys)
        \<le> min (lev xs' (y # ys) + 1) (min (lev (x # xs') ys + 1) (lev xs' ys + 1)) + 1"
      by (rule le_min3)
    then show ?thesis by (simp only: lev_Cons_min[OF False])
  qed
  then show ?thesis
    by (simp only: Cons)
qed

lemma lev_step: "edit_step ys zs \<Longrightarrow> lev xs zs \<le> lev xs ys + 1"
proof (induction xs ys arbitrary: zs rule: lev.induct)
  case (1 ys)
  then show ?case using edit_step_length by simp
next
  case (2 x xs)
  from edit_step_cases_head[OF "2.prems"] obtain z where "zs = [z]" by auto
  then show ?case using lev_Cons2[of "x # xs" z "[]"] by (simp only:)
next
  case (3 x xs y ys)
  from edit_step_cases_head[OF "3.prems"]
  consider (ins) z where "zs = z # y # ys"
    | (del) "zs = ys"
    | (sub) z where "zs = z # ys"
    | (ctx) zs' where "zs = y # zs'" "edit_step ys zs'"
    by auto
  then show ?case
  proof cases
    case ins
    then show ?thesis using lev_Cons2[of "x # xs" z "y # ys"] by (simp only:)
  next
    case del
    then show ?thesis using lev_tl2[of "x # xs" ys y] by (simp only:)
  next
    case sub
    then show ?thesis using lev_subst_head[of "x # xs" z ys y] by (simp only:)
  next
    case ctx
    show ?thesis
    proof (cases "x = y")
      case True
      with "3.IH"(1)[OF True ctx(2)] ctx(1) show ?thesis by (simp only: lev_Cons_eq)
    next
      case False
      have "edit_step (y # ys) (y # zs')" using ctx(2) by (rule edit_step_Cons)
      from "3.IH"(2)[OF False this] "3.IH"(3)[OF False ctx(2)] "3.IH"(4)[OF False ctx(2)]
      have "lev xs (y # zs') \<le> lev xs (y # ys) + 1"
        "lev (x # xs) zs' \<le> lev (x # xs) ys + 1"
        "lev xs zs' \<le> lev xs ys + 1" .
      then have "min (lev xs (y # zs') + 1) (min (lev (x # xs) zs' + 1) (lev xs zs' + 1))
        \<le> min (lev xs (y # ys) + 1) (min (lev (x # xs) ys + 1) (lev xs ys + 1)) + 1"
        by (rule min3_mono)
      then show ?thesis using ctx(1) by (simp only: lev_Cons_min[OF False])
    qed
  qed
qed

lemma lev_lower: "(edit_step ^^ n) xs ys \<Longrightarrow> lev xs ys \<le> n"
proof (induction n arbitrary: ys)
  case 0
  then show ?case by (simp add: lev_refl)
next
  case (Suc n)
  from Suc.prems obtain w where w: "(edit_step ^^ n) xs w" "edit_step w ys"
    by (rule relpowp_Suc_E)
  from w(1) have "lev xs w \<le> n"
    by (rule Suc.IH)
  moreover from w(2) have "lev xs ys \<le> lev xs w + 1"
    by (rule lev_step)
  ultimately show ?case by simp
qed

lemma edits_insert_all: "(edit_step ^^ length ys) [] ys"
proof (induction ys)
  case Nil
  show ?case by simp
next
  case (Cons y ys)
  have "edit_step ys (y # ys)" using edit_step.insertion[of "[]" ys y] by simp
  with Cons have "(edit_step ^^ Suc (length ys)) [] (y # ys)"
    by (rule relpowp_Suc_I)
  then show ?case by simp
qed

lemma edits_delete_all: "(edit_step ^^ length xs) xs []"
proof (induction xs)
  case Nil
  show ?case by simp
next
  case (Cons x xs)
  have "edit_step (x # xs) xs" using edit_step.deletion[of "[]" x xs] by simp
  then have "(edit_step ^^ Suc (length xs)) (x # xs) []"
    using Cons by (rule relpowp_Suc_I2)
  then show ?case by simp
qed

lemma lev_upper: "(edit_step ^^ lev xs ys) xs ys"
proof (induction xs ys rule: lev.induct)
  case (1 ys)
  show ?case by (simp add: edits_insert_all)
next
  case (2 x xs)
  show ?case using edits_delete_all[of "x # xs"] by simp
next
  case (3 x xs y ys)
  show ?case
  proof (cases "x = y")
    case True
    with "3.IH"(1) show ?thesis by (simp add: edits_Cons)
  next
    case False
    have del: "(edit_step ^^ (lev xs (y # ys) + 1)) (x # xs) (y # ys)"
    proof -
      have "edit_step (x # xs) xs" using edit_step.deletion[of "[]" x xs] by simp
      then have "(edit_step ^^ Suc (lev xs (y # ys))) (x # xs) (y # ys)"
        using "3.IH"(2)[OF False] by (rule relpowp_Suc_I2)
      then show ?thesis by simp
    qed
    have ins: "(edit_step ^^ (lev (x # xs) ys + 1)) (x # xs) (y # ys)"
    proof -
      have "edit_step ys (y # ys)" using edit_step.insertion[of "[]" ys y] by simp
      with "3.IH"(3)[OF False]
      have "(edit_step ^^ Suc (lev (x # xs) ys)) (x # xs) (y # ys)"
        by (rule relpowp_Suc_I)
      then show ?thesis by simp
    qed
    have sub: "(edit_step ^^ (lev xs ys + 1)) (x # xs) (y # ys)"
    proof -
      have "edit_step (x # xs) (y # xs)"
        using edit_step.substitution[OF False, of "[]" xs] by simp
      moreover have "(edit_step ^^ lev xs ys) (y # xs) (y # ys)"
        using "3.IH"(4)[OF False] by (rule edits_Cons)
      ultimately have "(edit_step ^^ Suc (lev xs ys)) (x # xs) (y # ys)"
        by (rule relpowp_Suc_I2)
      then show ?thesis by simp
    qed
    have "lev (x # xs) (y # ys) = lev xs (y # ys) + 1
        \<or> lev (x # xs) (y # ys) = lev (x # xs) ys + 1
        \<or> lev (x # xs) (y # ys) = lev xs ys + 1"
      unfolding lev_Cons_min[OF False] by (rule min3_cases)
    with del ins sub show ?thesis
      by (elim disjE) (simp_all only:)
  qed
qed

lemma lev_triangle: "lev xs zs \<le> lev xs ys + lev ys zs"
proof -
  have "(edit_step ^^ lev xs ys OO edit_step ^^ lev ys zs) xs zs"
    using lev_upper[of xs ys] lev_upper[of ys zs] by (rule relcomppI)
  then have "(edit_step ^^ (lev xs ys + lev ys zs)) xs zs"
    by (simp only: relpowp_add)
  then show ?thesis by (rule lev_lower)
qed

lemma lev_rev_upper: "(edit_step ^^ lev (rev xs) (rev ys)) xs ys"
  using edits_rev[OF lev_upper[of "rev xs" "rev ys"]] by simp

lemma lev_rev_lower: "(edit_step ^^ n) xs ys \<Longrightarrow> lev (rev xs) (rev ys) \<le> n"
  by (rule lev_lower, rule edits_rev)

section \<open>The matrix holds the recurrence\<close>

lemma cell_value_row0: "j \<le> length str2 \<Longrightarrow> cell_value str1 str2 0 j = int j"
  by (simp add: cell_value_def)

lemma cell_value_col0: "i \<le> length str1 \<Longrightarrow> cell_value str1 str2 i 0 = int i"
  by (simp add: cell_value_def lev_Nil2)

lemma rev_take_Suc: "i < length xs \<Longrightarrow> rev (take (Suc i) xs) = xs ! i # rev (take i xs)"
  by (simp add: take_Suc_conv_app_nth)

lemma cell_value_step:
  assumes "0 < i" "i \<le> length str1" "0 < j" "j \<le> length str2"
  shows "cell_value str1 str2 i j =
     (if char_at str1 (i - 1) = char_at str2 (j - 1)
      then cell_value str1 str2 (i - 1) (j - 1)
      else min (cell_value str1 str2 (i - 1) j + 1)
             (min (cell_value str1 str2 i (j - 1) + 1)
                (cell_value str1 str2 (i - 1) (j - 1) + 1)))"
proof -
  obtain i' j' where ij: "i = Suc i'" "j = Suc j'"
    using assms(1,3) by (metis Suc_pred)
  have lt: "i' < length str1" "j' < length str2"
    using assms(2,4) ij by simp_all
  have ch: "char_at str1 i' = char_at str2 j' \<longleftrightarrow> str1 ! i' = str2 ! j'"
    using lt by (simp add: char_at_def)
  show ?thesis
    unfolding cell_value_def ij
    by (simp add: ch rev_take_Suc[OF lt(1)] rev_take_Suc[OF lt(2)] min_def)
qed

lemma get_set_cell:
  assumes "dp i \<noteq> None"
  shows "\<exists>dp'. set_cell dp i j v = Some dp'
          \<and> (\<forall>k. (dp' k = None) = (dp k = None))
          \<and> (\<forall>i' j'. get_cell dp' i' j' = (if i' = i \<and> j' = j then Some v else get_cell dp i' j'))"
  using assms by (auto simp add: set_cell_def get_cell_def)

lemma init_rows_returns:
  assumes "i \<le> m + 1" and "\<forall>k < i. dp k = Some [0 \<mapsto> int k]"
  shows "\<exists>dp'. init_rows m i dp = Some dp' \<and> (\<forall>k \<le> m. dp' k = Some [0 \<mapsto> int k])"
  using assms
proof (induction "m + 1 - i" arbitrary: i dp rule: less_induct)
  case less
  show ?case
  proof (cases "i \<le> m")
    case False
    with less.prems have "init_rows m i dp = Some dp" "\<forall>k \<le> m. k < i"
      by (simp_all add: init_rows.simps)
    with less.prems(2) show ?thesis by simp
  next
    case True
    let ?dp1 = "dp(i \<mapsto> [0 \<mapsto> int i])"
    have s: "set_cell (dp(i \<mapsto> Map.empty)) i 0 (int i) = Some ?dp1"
      by (simp add: set_cell_def)
    have "\<forall>k < i + 1. ?dp1 k = Some [0 \<mapsto> int k]"
      using less.prems(2) by (simp add: less_Suc_eq)
    moreover have "m + 1 - (i + 1) < m + 1 - i" "i + 1 \<le> m + 1"
      using True by simp_all
    ultimately obtain dp' where "init_rows m (i + 1) ?dp1 = Some dp'"
      "\<forall>k \<le> m. dp' k = Some [0 \<mapsto> int k]"
      using less.hyps[of "i + 1" ?dp1] by blast
    then show ?thesis
      using True s by (subst init_rows.simps) simp
  qed
qed

lemma init_cols_returns:
  assumes "dp 0 = Some row"
  shows "\<exists>row'. init_cols n j dp = Some (dp(0 \<mapsto> row'))
           \<and> (\<forall>j'. row' j' = (if j \<le> j' \<and> j' \<le> n then Some (int j') else row j'))"
  using assms
proof (induction "n + 1 - j" arbitrary: j dp row rule: less_induct)
  case less
  show ?case
  proof (cases "j \<le> n")
    case False
    have "init_cols n j dp = Some (dp(0 \<mapsto> row))"
      using False less.prems by (subst init_cols.simps) (simp add: fun_upd_idem)
    with False show ?thesis by auto
  next
    case True
    let ?dp1 = "dp(0 \<mapsto> row(j \<mapsto> int j))"
    have s: "set_cell dp 0 j (int j) = Some ?dp1"
      using less.prems by (simp add: set_cell_def)
    have "n + 1 - (j + 1) < n + 1 - j"
      using True by simp
    from less.hyps[OF this, of ?dp1 "row(j \<mapsto> int j)"]
    obtain row' where r: "init_cols n (j + 1) ?dp1 = Some (?dp1(0 \<mapsto> row'))"
      "\<forall>j'. row' j' = (if j + 1 \<le> j' \<and> j' \<le> n then Some (int j') else (row(j \<mapsto> int j)) j')"
      by auto
    have "init_cols n j dp = Some (dp(0 \<mapsto> row'))"
      using True s r(1) by (subst init_cols.simps) simp
    moreover have "\<forall>j'. row' j' = (if j \<le> j' \<and> j' \<le> n then Some (int j') else row j')"
      using r(2) True by auto
    ultimately show ?thesis by blast
  qed
qed

lemma init_table:
  "\<exists>dp1 dp2. init_rows (length str1) 0 Map.empty = Some dp1
     \<and> init_cols (length str2) 0 dp1 = Some dp2
     \<and> table_ok str1 str2 dp2 1 1"
proof -
  obtain dp1 where dp1: "init_rows (length str1) 0 Map.empty = Some dp1"
    "\<forall>k \<le> length str1. dp1 k = Some [0 \<mapsto> int k]"
    using init_rows_returns[of 0 "length str1" Map.empty] by auto
  then have "dp1 0 = Some [0 \<mapsto> 0]" by simp
  with init_cols_returns[of dp1 "[0 \<mapsto> 0]" "length str2" 0]
  obtain row' where row': "init_cols (length str2) 0 dp1 = Some (dp1(0 \<mapsto> row'))"
    "\<forall>j'. row' j' = (if j' \<le> length str2 then Some (int j') else [0 \<mapsto> 0] j')"
    by auto
  have "table_ok str1 str2 (dp1(0 \<mapsto> row')) 1 1"
    unfolding table_ok_def
  proof (intro conjI allI impI)
    fix k assume "k \<le> length str1"
    then show "(dp1(0 \<mapsto> row')) k \<noteq> None"
      using dp1(2) by simp
  next
    fix i' j'
    assume b: "i' \<le> length str1" "j' \<le> length str2"
      and c: "i' = 0 \<or> j' = 0 \<or> i' < 1 \<or> i' = 1 \<and> j' < 1"
    show "get_cell (dp1(0 \<mapsto> row')) i' j' = Some (cell_value str1 str2 i' j')"
    proof (cases "i' = 0")
      case True
      then show ?thesis
        using b row'(2) by (simp add: get_cell_def cell_value_row0)
    next
      case False
      with c have "j' = 0" by auto
      with False b dp1(2) show ?thesis
        by (simp add: get_cell_def cell_value_col0)
    qed
  qed
  with dp1(1) row'(1) show ?thesis by blast
qed

lemma fill_cell_returns:
  assumes t: "table_ok str1 str2 dp i j"
    and i: "0 < i" "i \<le> length str1" and j: "0 < j" "j \<le> length str2"
  shows "\<exists>dp'. fill_cell str1 str2 i j dp = Some dp' \<and> table_ok str1 str2 dp' i (j + 1)"
proof -
  let ?D = "cell_value str1 str2"
  have rows: "\<forall>k \<le> length str1. dp k \<noteq> None"
    and cells: "\<And>i' j'. i' \<le> length str1 \<Longrightarrow> j' \<le> length str2 \<Longrightarrow>
        i' = 0 \<or> j' = 0 \<or> i' < i \<or> (i' = i \<and> j' < j) \<Longrightarrow>
        get_cell dp i' j' = Some (?D i' j')"
    using t unfolding table_ok_def by blast+
  have diag: "get_cell dp (i - 1) (j - 1) = Some (?D (i - 1) (j - 1))"
    using i j by (intro cells) auto
  have del: "get_cell dp (i - 1) j = Some (?D (i - 1) j)"
    using i j by (intro cells) auto
  have ins: "get_cell dp i (j - 1) = Some (?D i (j - 1))"
    using i j by (intro cells) auto
  have "dp i \<noteq> None" using rows i by simp
  with get_set_cell[of dp i j "?D i j"]
  obtain dp' where dp': "set_cell dp i j (?D i j) = Some dp'"
    "\<forall>k. (dp' k = None) = (dp k = None)"
    "\<forall>i' j'. get_cell dp' i' j' = (if i' = i \<and> j' = j then Some (?D i j) else get_cell dp i' j')"
    by blast
  have "fill_cell str1 str2 i j dp = Some dp'"
    unfolding fill_cell_def using dp'(1) cell_value_step[OF i j]
    by (auto simp add: diag del ins simp del: One_nat_def split: if_splits)
  moreover have "table_ok str1 str2 dp' i (j + 1)"
    unfolding table_ok_def
  proof (intro conjI allI impI)
    fix k assume "k \<le> length str1"
    then show "dp' k \<noteq> None" using rows dp'(2) by simp
  next
    fix i' j'
    assume b: "i' \<le> length str1" "j' \<le> length str2"
      and c: "i' = 0 \<or> j' = 0 \<or> i' < i \<or> i' = i \<and> j' < j + 1"
    show "get_cell dp' i' j' = Some (?D i' j')"
    proof (cases "i' = i \<and> j' = j")
      case True
      then show ?thesis using dp'(3) by simp
    next
      case False
      with c have "i' = 0 \<or> j' = 0 \<or> i' < i \<or> (i' = i \<and> j' < j)" by auto
      from cells[OF b this] False dp'(3) show ?thesis by simp
    qed
  qed
  ultimately show ?thesis by blast
qed

lemma table_ok_next_row:
  assumes "table_ok str1 str2 dp i (length str2 + 1)"
  shows "table_ok str1 str2 dp (i + 1) 1"
  unfolding table_ok_def
proof (intro conjI allI impI)
  fix k assume "k \<le> length str1"
  then show "dp k \<noteq> None"
    using assms unfolding table_ok_def by blast
next
  fix i' j'
  assume b: "i' \<le> length str1" "j' \<le> length str2"
    and c: "i' = 0 \<or> j' = 0 \<or> i' < i + 1 \<or> i' = i + 1 \<and> j' < 1"
  from b(2) c have "i' = 0 \<or> j' = 0 \<or> i' < i \<or> (i' = i \<and> j' < length str2 + 1)"
    by linarith
  with b assms show "get_cell dp i' j' = Some (cell_value str1 str2 i' j')"
    unfolding table_ok_def by blast
qed

lemma fill_row_returns:
  assumes "table_ok str1 str2 dp i j"
    and "0 < i" "i \<le> length str1" and "0 < j" "j \<le> length str2 + 1"
  shows "\<exists>dp'. fill_row str1 str2 (length str2) i j dp = Some dp'
           \<and> table_ok str1 str2 dp' (i + 1) 1"
  using assms
proof (induction "length str2 + 1 - j" arbitrary: j dp rule: less_induct)
  case less
  show ?case
  proof (cases "j \<le> length str2")
    case False
    then have "fill_row str1 str2 (length str2) i j dp = Some dp"
      by (subst fill_row.simps) simp
    moreover have "j = length str2 + 1"
      using False less.prems(5) by simp
    then have "table_ok str1 str2 dp (i + 1) 1"
      using less.prems(1) by (simp only: table_ok_next_row)
    ultimately show ?thesis by blast
  next
    case True
    from fill_cell_returns[OF less.prems(1) less.prems(2,3) less.prems(4) True]
    obtain dp1 where dp1: "fill_cell str1 str2 i j dp = Some dp1"
      "table_ok str1 str2 dp1 i (j + 1)"
      by blast
    have "length str2 + 1 - (j + 1) < length str2 + 1 - j"
      using True by simp
    from less.hyps[OF this dp1(2) less.prems(2,3)] True
    obtain dp' where "fill_row str1 str2 (length str2) i (j + 1) dp1 = Some dp'"
      "table_ok str1 str2 dp' (i + 1) 1"
      by auto
    then show ?thesis
      using True dp1(1) by (subst fill_row.simps) simp
  qed
qed

lemma fill_rows_returns:
  assumes "table_ok str1 str2 dp i 1" and "0 < i" "i \<le> length str1 + 1"
  shows "\<exists>dp'. fill_rows str1 str2 (length str1) (length str2) i dp = Some dp'
           \<and> table_ok str1 str2 dp' (length str1 + 1) 1"
  using assms
proof (induction "length str1 + 1 - i" arbitrary: i dp rule: less_induct)
  case less
  show ?case
  proof (cases "i \<le> length str1")
    case False
    then have "fill_rows str1 str2 (length str1) (length str2) i dp = Some dp"
      by (subst fill_rows.simps) simp
    moreover have "i = length str1 + 1"
      using False less.prems(3) by simp
    ultimately show ?thesis using less.prems(1) by simp
  next
    case True
    from fill_row_returns[OF less.prems(1) less.prems(2) True, of ] 
    obtain dp1 where dp1: "fill_row str1 str2 (length str2) i 1 dp = Some dp1"
      "table_ok str1 str2 dp1 (i + 1) 1"
      by auto
    have "length str1 + 1 - (i + 1) < length str1 + 1 - i"
      using True by simp
    from less.hyps[OF this dp1(2)] True
    obtain dp' where "fill_rows str1 str2 (length str1) (length str2) (i + 1) dp1 = Some dp'"
      "table_ok str1 str2 dp' (length str1 + 1) 1"
      by auto
    then show ?thesis
      using True dp1(1) by (subst fill_rows.simps) simp
  qed
qed

lemma calculateLevenshteinDistance_lev:
  "calculateLevenshteinDistance str1 str2 = Some (int (lev (rev str1) (rev str2)))"
proof -
  obtain dp1 dp2 where init: "init_rows (length str1) 0 Map.empty = Some dp1"
    "init_cols (length str2) 0 dp1 = Some dp2" "table_ok str1 str2 dp2 1 1"
    using init_table by blast
  from fill_rows_returns[OF init(3)]
  obtain dp3 where dp3: "fill_rows str1 str2 (length str1) (length str2) 1 dp2 = Some dp3"
    "table_ok str1 str2 dp3 (length str1 + 1) 1"
    by auto
  have "get_cell dp3 (length str1) (length str2)
      = Some (cell_value str1 str2 (length str1) (length str2))"
    using dp3(2) unfolding table_ok_def by simp
  then show ?thesis
    using init(1,2) dp3(1) by (simp add: calculateLevenshteinDistance_def cell_value_def)
qed

section \<open>What every call of getRandomSamples returns\<close>

text \<open>Unfolding the definitions evaluates a call on concrete arguments.\<close>

lemmas sampler_eval =
  getRandomSamples_def sample_loop.simps myRandomUniform_def lcg_step_def mul_def inc_def
  randomLcg_def Let_def

lemma getRandomSamples_loop:
  fixes items :: "'a list"
  defines "s0 \<equiv> \<lambda>seed. \<lparr>sampledItems = ([] :: 'a list), sampledIndexes = {}, rng = randomLcg seed\<rparr>"
  assumes T: "T = min sz (int (length items))"
    and thr: "thr = of_int T / of_nat (length items)"
  shows "\<exists>s. sample_loop myRandomUniform replace T thr items (s0 seed) = Some s
       \<and> good replace items s
       \<and> int (length (sampledItems s)) = max T 0"
proof -
  have g0: "good replace items (s0 seed)"
    by (simp add: good_def chosen_def s0_def)
  show ?thesis
  proof (cases "0 < T")
    case False
    then have "sample_loop myRandomUniform replace T thr items (s0 seed) = Some (s0 seed)"
      by (subst sample_loop.simps) (simp add: s0_def)
    with False g0 show ?thesis
      by (simp add: s0_def)
  next
    case True
    then have "0 \<le> thr"
      by (simp add: thr)
    then have "fair myRandomUniform thr"
      by (rule myRandomUniform_fair)
    moreover have "T \<le> int (length items)"
      by (simp add: T)
    ultimately obtain s where
      "sample_loop myRandomUniform replace T thr items (s0 seed) = Some s"
      "good replace items s"
      "int (length (sampledItems s)) = max T (int (length (sampledItems (s0 seed))))"
      using sample_loop_returns[OF _ _ g0] by blast
    then show ?thesis
      by (auto simp add: s0_def)
  qed
qed

lemma getRandomSamples_returns:
  "\<exists>r. getRandomSamples items sz seed replace = Some r
     \<and> int (length r) = max 0 (min sz (int (length items)))
     \<and> (replace \<or> (\<exists>idxs. distinct idxs \<and> (\<forall>i \<in> set idxs. i < length items)
                           \<and> r = map (nth items) idxs))"
proof -
  obtain s where s:
    "sample_loop myRandomUniform replace (min sz (int (length items)))
       (of_int (min sz (int (length items))) / of_nat (length items)) items
       \<lparr>sampledItems = [], sampledIndexes = {}, rng = randomLcg seed\<rparr> = Some s"
    "good replace items s"
    "int (length (sampledItems s)) = max (min sz (int (length items))) 0"
    using getRandomSamples_loop[OF refl refl] by blast
  have "getRandomSamples items sz seed replace = Some (sampledItems s)"
    using s(1) by (simp add: getRandomSamples_def Let_def)
  moreover have "int (length (sampledItems s)) = max 0 (min sz (int (length items)))"
    using s(3) by simp
  moreover have "replace \<or> (\<exists>idxs. distinct idxs \<and> (\<forall>i \<in> set idxs. i < length items)
                           \<and> sampledItems s = map (nth items) idxs)"
    using s(2) by (auto simp add: good_def chosen_def)
  ultimately show ?thesis by blast
qed

lemma sample_one_pass:
  fixes items :: "'a list"
  defines "s0 \<equiv> \<lambda>seed. \<lparr>sampledItems = ([] :: 'a list), sampledIndexes = {}, rng = randomLcg seed\<rparr>"
  assumes "items \<noteq> []"
  shows "sampledItems (scan myRandomUniform replace (int (length items)) 1
           (enumerate 0 items) (s0 seed)) = items"
proof -
  have "\<forall>g. fst (myRandomUniform g) \<le> 1"
    using myRandomUniform_range by (metis less_imp_le)
  then have "sampledItems (scan myRandomUniform replace (int (length items)) 1
           (enumerate 0 items) (s0 seed)) = sampledItems (s0 seed) @ items"
    using assms(2) by (intro scan_all_accepted) (simp_all add: s0_def)
  then show ?thesis
    by (simp add: s0_def)
qed

text \<open>
  The threshold enters the proofs only through its sign: from every state of the
  generator, for every threshold that is not negative, the loop returns, with as many
  items as the target asks for. A threshold rounded to a double is such a threshold.
\<close>

lemma sample_loop_any_threshold:
  assumes "0 \<le> thr" and "T \<le> int (length items)"
  shows "\<exists>s. sample_loop myRandomUniform replace T thr items
             \<lparr>sampledItems = [], sampledIndexes = {}, rng = g\<rparr> = Some s
       \<and> good replace items s
       \<and> int (length (sampledItems s)) = max T 0"
proof -
  let ?s0 = "\<lparr>sampledItems = ([] :: 'a list), sampledIndexes = {}, rng = g\<rparr>"
  have "good replace items ?s0"
    by (simp add: good_def chosen_def)
  with sample_loop_returns[OF myRandomUniform_fair[OF assms(1)] assms(2), of replace ?s0]
  show ?thesis by simp
qed

section \<open>The sampler reads nothing but its arguments\<close>

text \<open>
  Two generators that produce the same numbers, on states related by \<open>f\<close>, drive the loops
  to the same items and indices, on generator states related by \<open>f\<close>.
\<close>

lemma scan_with_rng:
  assumes "\<And>g. draw2 (f g) = (fst (draw1 g), f (snd (draw1 g)))"
  shows "scan draw2 r T thr es (with_rng f s) = with_rng f (scan draw1 r T thr es s)"
proof (induction es arbitrary: s)
  case Nil
  show ?case by simp
next
  case (Cons e es)
  obtain i x where e: "e = (i, x)" by (cases e)
  obtain u g where d: "draw1 (rng s) = (u, g)" by (cases "draw1 (rng s)")
  then have d2: "draw2 (f (rng s)) = (u, f g)"
    using assms[of "rng s"] by simp
  let ?s' = "\<lparr>sampledItems = sampledItems s @ [x],
              sampledIndexes = insert i (sampledIndexes s), rng = g\<rparr>"
  have a: "with_rng f ?s' = \<lparr>sampledItems = sampledItems s @ [x],
              sampledIndexes = insert i (sampledIndexes s), rng = f g\<rparr>"
    by (simp add: with_rng_def)
  have b: "with_rng f (s\<lparr>rng := g\<rparr>) = (with_rng f s)\<lparr>rng := f g\<rparr>"
    by (simp add: with_rng_def)
  have sel: "sampledItems (with_rng f s) = sampledItems s"
    "sampledIndexes (with_rng f s) = sampledIndexes s" "rng (with_rng f s) = f (rng s)"
    by (simp_all add: with_rng_def)
  show ?case
    using Cons.IH[of s] Cons.IH[of ?s'] Cons.IH[of "s\<lparr>rng := g\<rparr>"]
    by (auto simp add: e d d2 sel a b Let_def)
qed

lemma sample_loop_with_rng:
  fixes items :: "'a list"
  assumes sim: "\<And>g. draw2 (f g) = (fst (draw1 g), f (snd (draw1 g)))"
    and run: "sample_loop draw1 r T thr items s = Some s'"
  shows "sample_loop draw2 r T thr items (with_rng f s) = Some (with_rng f s')"
proof -
  have "draw1 = draw1 \<longrightarrow>
      sample_loop draw2 r T thr items (with_rng f s) = Some (with_rng f s')"
  proof (rule sample_loop.raw_induct[where P = "\<lambda>d r T thr items s s'. d = draw1 \<longrightarrow>
      sample_loop draw2 r T thr items (with_rng f s) = Some (with_rng f s')", OF _ run])
    fix loop d r T thr and items :: "'a list" and s y
    assume IH: "\<And>d r T thr items s y. loop d r T thr items s = Some y \<Longrightarrow>
        d = draw1 \<longrightarrow> sample_loop draw2 r T thr items (with_rng f s) = Some (with_rng f y)"
      and step: "(if int (length (sampledItems s)) < T
          then loop d r T thr items (scan d r T thr (enumerate 0 items) s)
          else Some s) = Some y"
    show "d = draw1 \<longrightarrow> sample_loop draw2 r T thr items (with_rng f s) = Some (with_rng f y)"
    proof
      assume d: "d = draw1"
      show "sample_loop draw2 r T thr items (with_rng f s) = Some (with_rng f y)"
      proof (cases "int (length (sampledItems s)) < T")
        case False
        with step have "y = s" by simp
        with False show ?thesis
          by (subst sample_loop.simps) (simp add: with_rng_def)
      next
        case True
        with step have "loop d r T thr items (scan d r T thr (enumerate 0 items) s) = Some y"
          by simp
        from IH[OF this] d
        have "sample_loop draw2 r T thr items
            (with_rng f (scan draw1 r T thr (enumerate 0 items) s)) = Some (with_rng f y)"
          by simp
        then have "sample_loop draw2 r T thr items
            (scan draw2 r T thr (enumerate 0 items) (with_rng f s)) = Some (with_rng f y)"
          by (simp only: scan_with_rng[where ?draw2.0 = draw2 and f = f and ?draw1.0 = draw1,
                OF sim])
        with True show ?thesis
          by (subst sample_loop.simps) (simp add: with_rng_def)
      qed
    qed
  qed
  then show ?thesis by simp
qed

lemma randomUniform_source_Lcg:
  "randomUniform_source mathRandom (Lcg state, w)
     = (fst (myRandomUniform state), Lcg (snd (myRandomUniform state)), w)"
  by (simp add: randomUniform_source_def call_source_def myRandomUniform_def Let_def)

lemma getRandomSamples_env_eq:
  "getRandomSamples_env mathRandom items sz seed replace w
     = map_option (\<lambda>r. (r, w)) (getRandomSamples items sz seed replace)"
proof -
  let ?T = "min sz (int (length items))"
  let ?thr = "of_int ?T / of_nat (length items) :: rat"
  let ?s0 = "\<lparr>sampledItems = ([] :: 'a list), sampledIndexes = {}, rng = randomLcg seed\<rparr>"
  let ?f = "\<lambda>state. (Lcg state, w)"
  obtain s where s: "sample_loop myRandomUniform replace ?T ?thr items ?s0 = Some s"
    using getRandomSamples_loop[OF refl refl] by blast
  have "sample_loop (randomUniform_source mathRandom) replace ?T ?thr items (with_rng ?f ?s0)
      = Some (with_rng ?f s)"
    using s by (intro sample_loop_with_rng[where ?draw1.0 = myRandomUniform])
      (simp_all add: randomUniform_source_Lcg)
  moreover have "with_rng ?f ?s0
      = \<lparr>sampledItems = [], sampledIndexes = {}, rng = (Lcg (randomLcg seed), w)\<rparr>"
    by (simp add: with_rng_def)
  ultimately show ?thesis
    using s by (simp add: getRandomSamples_env_def getRandomSamples_def Let_def with_rng_def)
qed

text \<open>
  On the default source the same loops do read the environment: from two states of an
  ambient generator they return different items.
\<close>

lemmas env_eval =
  getRandomSamples_env_def sample_loop.simps randomUniform_source_def call_source_def
  lcg_step_def mul_def inc_def randomLcg_def Let_def

lemma default_source_reads_environment:
  "map_option sampledItems
     (sample_loop (randomUniform_source (\<lambda>w :: rat. (w, 1 - w))) False 1 (1 / 2) [1, 2 :: int]
        \<lparr>sampledItems = [], sampledIndexes = {}, rng = (MathRandom, 0)\<rparr>) = Some [1]
   \<and> map_option sampledItems
     (sample_loop (randomUniform_source (\<lambda>w :: rat. (w, 1 - w))) False 1 (1 / 2) [1, 2 :: int]
        \<lparr>sampledItems = [], sampledIndexes = {}, rng = (MathRandom, 1)\<rparr>) = Some [2]"
  by (simp add: env_eval)

section \<open>Claims\<close>

text \<open>
  C1. For every pair of strings, \<open>calculateLevenshteinDistance\<close> returns a number, the
  number is not negative, that many edit operations (insertions, deletions and
  substitutions of one character) transform the first string into the second, and no
  smaller number of them does. For two empty strings it is 0, and when one string is
  empty it is the length of the other.
\<close>

theorem levenshtein_minimal_edits:
  "(\<exists>v. calculateLevenshteinDistance a b = Some v \<and> 0 \<le> v
       \<and> (edit_step ^^ nat v) a b
       \<and> (\<forall>n. (edit_step ^^ n) a b \<longrightarrow> v \<le> int n))
   \<and> calculateLevenshteinDistance ([] :: 'c list) [] = Some 0
   \<and> calculateLevenshteinDistance a [] = Some (int (length a))
   \<and> calculateLevenshteinDistance [] b = Some (int (length b))"
proof -
  let ?d = "lev (rev a) (rev b)"
  have "calculateLevenshteinDistance a b = Some (int ?d)"
    by (rule calculateLevenshteinDistance_lev)
  moreover have "(edit_step ^^ nat (int ?d)) a b"
    using lev_rev_upper[of a b] by simp
  moreover have "\<forall>n. (edit_step ^^ n) a b \<longrightarrow> int ?d \<le> int n"
    using lev_rev_lower[of _ a b] by simp
  ultimately have "\<exists>v. calculateLevenshteinDistance a b = Some v \<and> 0 \<le> v
       \<and> (edit_step ^^ nat v) a b
       \<and> (\<forall>n. (edit_step ^^ n) a b \<longrightarrow> v \<le> int n)"
    by (intro exI[of _ "int ?d"]) simp
  moreover have "calculateLevenshteinDistance ([] :: 'c list) [] = Some 0"
    by (simp add: calculateLevenshteinDistance_lev)
  moreover have "calculateLevenshteinDistance a [] = Some (int (length a))"
    by (simp add: calculateLevenshteinDistance_lev lev_Nil2)
  moreover have "calculateLevenshteinDistance [] b = Some (int (length b))"
    by (simp add: calculateLevenshteinDistance_lev)
  ultimately show ?thesis by blast
qed

theorem levenshtein_minimal_edits_witness:
  "(\<exists>v. calculateLevenshteinDistance ''kitten'' ''sitting'' = Some v \<and> 0 \<le> v
       \<and> (edit_step ^^ nat v) ''kitten'' ''sitting'')
   \<and> calculateLevenshteinDistance ''kitten'' ''sitting'' = Some 3
   \<and> \<not> (edit_step ^^ 2) ''kitten'' ''sitting''
   \<and> calculateLevenshteinDistance ''kitten'' [] = Some 6
   \<and> calculateLevenshteinDistance [] ''sitting'' = Some 7"
proof -
  have e: "calculateLevenshteinDistance ''kitten'' ''sitting'' = Some 3"
    by code_simp
  from levenshtein_minimal_edits[of "''kitten''" "''sitting''"] e
  have p: "(edit_step ^^ nat 3) ''kitten'' ''sitting''"
    and m: "\<forall>n. (edit_step ^^ n) ''kitten'' ''sitting'' \<longrightarrow> (3::int) \<le> int n"
    and l: "calculateLevenshteinDistance ''kitten'' [] = Some 6"
    and r: "calculateLevenshteinDistance [] ''sitting'' = Some 7"
    by auto
  have "\<not> (edit_step ^^ 2) ''kitten'' ''sitting''"
  proof
    assume "(edit_step ^^ 2) ''kitten'' ''sitting''"
    with m have "(3::int) \<le> int 2" by blast
    then show False by simp
  qed
  with e p l r show ?thesis by simp
qed

text \<open>
  C2, as amended. The target size is \<^verbatim>\<open>Math.min(size, items.length)\<close> whatever the
  flag: with replacement too, for every array, every size of at least 0 and every seed, the
  call returns and the result has \<open>min size (length items)\<close> elements.
\<close>

theorem sample_with_replacement_length:
  assumes "0 \<le> sz"
  shows "\<exists>r. getRandomSamples items sz seed True = Some r
           \<and> int (length r) = min sz (int (length items))"
  using getRandomSamples_returns[of items sz seed True] assms by auto

theorem sample_with_replacement_length_witness:
  "(0::int) \<le> 2 \<and> (\<exists>r. getRandomSamples [1, 2, 3, 4, 5 :: int] 2 1212 True = Some r
           \<and> int (length r) = min 2 (int (length [1, 2, 3, 4, 5 :: int])))
   \<and> getRandomSamples [1, 2, 3, 4, 5 :: int] 2 1212 True = Some [2, 5]"
  using sample_with_replacement_length[of 2 "[1, 2, 3, 4, 5 :: int]" 1212]
  by (simp add: sampler_eval)

text \<open>
  C2 as stated fails: with replacement, a size of 5 and two items, the result has two
  elements, not five.
\<close>

theorem sample_with_replacement_clamped:
  "getRandomSamples [1, 2 :: int] 5 1212 True = Some [1, 2]
   \<and> map_option length (getRandomSamples [1, 2 :: int] 5 1212 True) \<noteq> Some 5"
  by (simp add: sampler_eval)

text \<open>
  C3, as amended. For a size that is zero or negative, \<open>getRandomSamples\<close> returns the
  empty array and raises nothing, and \<open>chunk\<close> raises the error
  \<^verbatim>\<open>Size must be greater than 0\<close>, as its guard and its documentation say.
\<close>

theorem nonpositive_size:
  assumes "sz \<le> 0" and "csz \<le> 0"
  shows "getRandomSamples items sz seed replace = Some []
       \<and> chunk array csz = Some (Inl (Error ''Size must be greater than 0''))"
proof -
  have "getRandomSamples items sz seed replace = Some []"
    using getRandomSamples_returns[of items sz seed replace] assms(1) by auto
  with assms(2) show ?thesis
    by (simp add: chunk_def)
qed

theorem nonpositive_size_witness:
  "(0::int) \<le> 0 \<and> (- 1 / 2 :: rat) \<le> 0
       \<and> getRandomSamples [1, 2, 3 :: int] 0 1212 False = Some []
       \<and> chunk [1, 2, 3 :: int] (- 1 / 2) = Some (Inl (Error ''Size must be greater than 0''))"
  using nonpositive_size[of 0 "- 1 / 2" "[1, 2, 3 :: int]" 1212 False "[1, 2, 3 :: int]"]
  by simp

text \<open>
  C3 as stated fails: \<open>chunk\<close> with size 0 raises, it does not return the empty result.
\<close>

theorem chunk_nonpositive_throws:
  "chunk [1 :: int] 0 = Some (Inl (Error ''Size must be greater than 0''))
   \<and> chunk [1 :: int] 0 \<noteq> Some (Inr [])"
  by (simp add: chunk_def)

text \<open>
  C4. Without replacement, for every array, every size of at least 0 and every seed, the
  call returns and the result has exactly \<open>min size (length items)\<close> elements; for the
  empty array the result is empty.
\<close>

theorem sample_without_replacement_length:
  assumes "0 \<le> sz"
  shows "(\<exists>r. getRandomSamples items sz seed False = Some r
           \<and> int (length r) = min sz (int (length items)))
       \<and> getRandomSamples ([] :: 'a list) sz seed False = Some []"
proof -
  have "\<exists>r. getRandomSamples items sz seed False = Some r
           \<and> int (length r) = min sz (int (length items))"
    using getRandomSamples_returns[of items sz seed False] assms by auto
  moreover have "getRandomSamples ([] :: 'a list) sz seed False = Some []"
    using getRandomSamples_returns[of "[] :: 'a list" sz seed False] assms by auto
  ultimately show ?thesis ..
qed

theorem sample_without_replacement_length_witness:
  "(0::int) \<le> 2 \<and> (\<exists>r. getRandomSamples [1, 2, 3, 4, 5 :: int] 2 1212 False = Some r
           \<and> int (length r) = min 2 (int (length [1, 2, 3, 4, 5 :: int])))
   \<and> getRandomSamples ([] :: int list) 2 1212 False = Some []
   \<and> getRandomSamples [1, 2, 3, 4, 5 :: int] 2 1212 False = Some [2, 5]"
  using sample_without_replacement_length[of 2 "[1, 2, 3, 4, 5 :: int]" 1212]
  by (simp add: sampler_eval)

text \<open>
  C5. Without replacement, for every array, size and seed, the result is the items at a
  sequence of positions of the array in which no position occurs twice: each position
  contributes at most one element. With replacement a position may repeat: from the three
  different items 1, 2, 3, with size 2 and seed 16, the result is the first item twice.
\<close>

theorem sample_no_index_twice:
  "(\<exists>r idxs. getRandomSamples items sz seed False = Some r
       \<and> distinct idxs \<and> (\<forall>i \<in> set idxs. i < length items) \<and> r = map (nth items) idxs)
   \<and> getRandomSamples [1, 2, 3 :: int] 2 16 True = Some [1, 1]"
proof -
  have "\<exists>r idxs. getRandomSamples items sz seed False = Some r
       \<and> distinct idxs \<and> (\<forall>i \<in> set idxs. i < length items) \<and> r = map (nth items) idxs"
    using getRandomSamples_returns[of items sz seed False] by auto
  moreover have "getRandomSamples [1, 2, 3 :: int] 2 16 True = Some [1, 1]"
    by (simp add: sampler_eval)
  ultimately show ?thesis ..
qed

theorem sample_no_index_twice_witness:
  "(\<exists>r idxs. getRandomSamples [1, 2, 3, 4, 5 :: int] 2 1212 False = Some r
       \<and> distinct idxs \<and> (\<forall>i \<in> set idxs. i < length [1, 2, 3, 4, 5 :: int])
       \<and> r = map (nth [1, 2, 3, 4, 5]) idxs)
   \<and> getRandomSamples [1, 2, 3, 4, 5 :: int] 2 1212 False = Some (map (nth [1, 2, 3, 4, 5]) [1, 4])"
  using sample_no_index_twice[of "[1, 2, 3, 4, 5 :: int]" 2 1212]
  by (simp add: sampler_eval)

text \<open>
  C6. Two calls with the same items, size, seed and flag return the same sequence,
  whatever the environment of each: for any two ambient generators and any two states of
  them, both calls return, they return the same items, and each leaves its environment as
  it found it. Every number is drawn from the generator that the call creates from its
  seed.
\<close>

theorem sample_deterministic:
  "\<exists>r. getRandomSamples_env mathRandom1 items sz seed replace w1 = Some (r, w1)
     \<and> getRandomSamples_env mathRandom2 items sz seed replace w2 = Some (r, w2)
     \<and> getRandomSamples items sz seed replace = Some r"
proof -
  obtain r where "getRandomSamples items sz seed replace = Some r"
    using getRandomSamples_returns[of items sz seed replace] by blast
  then show ?thesis
    by (simp add: getRandomSamples_env_eq)
qed

theorem sample_deterministic_witness:
  "(\<exists>r. getRandomSamples_env (\<lambda>w :: nat. (1 / 3, Suc w)) [1, 2, 3, 4, 5 :: int] 2 1212 False 0
           = Some (r, 0)
       \<and> getRandomSamples_env (\<lambda>w :: bool. (0, \<not> w)) [1, 2, 3, 4, 5 :: int] 2 1212 False True
           = Some (r, True))
   \<and> getRandomSamples_env (\<lambda>w :: nat. (1 / 3, Suc w)) [1, 2, 3, 4, 5 :: int] 2 1212 False 0
           = Some ([2, 5], 0)
   \<and> getRandomSamples_env (\<lambda>w :: bool. (0, \<not> w)) [1, 2, 3, 4, 5 :: int] 2 1212 False True
           = Some ([2, 5], True)"
  using sample_deterministic[of "\<lambda>w :: nat. (1 / 3, Suc w)" "[1, 2, 3, 4, 5 :: int]" 2 1212
      False 0 "\<lambda>w :: bool. (0, \<not> w)" True]
  by (simp add: env_eval)

text \<open>
  C7. Without replacement, for a non-empty array and a size of at least its length, the
  threshold is 1, every number drawn is accepted, and one pass of the \<^verbatim>\<open>for\<close> loop
  collects every item: the call returns the items themselves, in their order, which is in
  particular a permutation of the items.
\<close>

theorem sample_whole_population:
  assumes "items \<noteq> []" and "int (length items) \<le> sz"
  shows "getRandomSamples items sz seed False = Some items
       \<and> (\<exists>r. getRandomSamples items sz seed False = Some r \<and> mset r = mset items)
       \<and> sampledItems (scan myRandomUniform False (int (length items)) 1 (enumerate 0 items)
            \<lparr>sampledItems = [], sampledIndexes = {}, rng = randomLcg seed\<rparr>) = items"
proof -
  let ?s0 = "\<lparr>sampledItems = ([] :: 'a list), sampledIndexes = {}, rng = randomLcg seed\<rparr>"
  let ?n = "int (length items)"
  let ?s1 = "scan myRandomUniform False ?n 1 (enumerate 0 items) ?s0"
  have one: "sampledItems ?s1 = items"
    using assms(1) by (rule sample_one_pass)
  have "sample_loop myRandomUniform False ?n 1 items ?s1 = Some ?s1"
    by (subst sample_loop.simps) (simp add: one)
  moreover have "0 < ?n"
    using assms(1) by simp
  ultimately have "sample_loop myRandomUniform False ?n 1 items ?s0 = Some ?s1"
    by (subst sample_loop.simps) simp
  moreover have "min sz ?n = ?n"
    using assms(2) by simp
  moreover have "(of_int ?n :: rat) / of_nat (length items) = 1"
    using assms(1) by simp
  ultimately have "getRandomSamples items sz seed False = Some items"
    by (simp add: getRandomSamples_def Let_def one)
  with one show ?thesis by simp
qed

theorem sample_whole_population_witness:
  "[1, 2, 3 :: int] \<noteq> [] \<and> int (length [1, 2, 3 :: int]) \<le> 7
   \<and> getRandomSamples [1, 2, 3 :: int] 7 1212 False = Some [1, 2, 3]
   \<and> sampledItems (scan myRandomUniform False 3 1 (enumerate 0 [1, 2, 3 :: int])
        \<lparr>sampledItems = [], sampledIndexes = {}, rng = randomLcg 1212\<rparr>) = [1, 2, 3]"
  using sample_whole_population[of "[1, 2, 3 :: int]" 7 1212]
  by simp

text \<open>
  C8. For a non-empty array, a size of at least 1, every seed and either flag, the call
  returns: the \<^verbatim>\<open>while\<close> loop ends after finitely many passes. The generator is a
  linear congruential generator of full period, so from every state it reaches the state
  whose output is 0, which every positive threshold accepts.
\<close>

theorem sample_terminates:
  assumes "items \<noteq> []" and "1 \<le> sz"
  shows "\<exists>r. getRandomSamples items sz seed replace = Some r"
  using getRandomSamples_returns[of items sz seed replace] by blast

theorem sample_terminates_witness:
  "[1, 2, 3 :: int] \<noteq> [] \<and> (1::int) \<le> 2
   \<and> (\<exists>r. getRandomSamples [1, 2, 3 :: int] 2 38 True = Some r)
   \<and> getRandomSamples [1, 2, 3 :: int] 2 38 True = Some [1, 1]"
  using sample_terminates[of "[1, 2, 3 :: int]" 2 38 True]
  by (simp add: sampler_eval)

text \<open>
  C9. The triangle inequality: for every three strings, the three calls return, and the
  distance from the first to the third is at most the sum of the distances from the first
  to the second and from the second to the third.
\<close>

theorem levenshtein_triangle:
  "\<exists>x y z. calculateLevenshteinDistance a c = Some x
     \<and> calculateLevenshteinDistance a b = Some y
     \<and> calculateLevenshteinDistance b c = Some z
     \<and> x \<le> y + z"
proof -
  have "int (lev (rev a) (rev c)) \<le> int (lev (rev a) (rev b)) + int (lev (rev b) (rev c))"
    using lev_triangle[of "rev a" "rev c" "rev b"] by linarith
  then show ?thesis
    by (simp add: calculateLevenshteinDistance_lev)
qed

theorem levenshtein_triangle_witness:
  "(\<exists>x y z. calculateLevenshteinDistance ''kitten'' ''sitting'' = Some x
     \<and> calculateLevenshteinDistance ''kitten'' ''mitten'' = Some y
     \<and> calculateLevenshteinDistance ''mitten'' ''sitting'' = Some z
     \<and> x \<le> y + z)
   \<and> calculateLevenshteinDistance ''kitten'' ''sitting'' = Some 3
   \<and> calculateLevenshteinDistance ''kitten'' ''mitten'' = Some 1
   \<and> calculateLevenshteinDistance ''mitten'' ''sitting'' = Some 3"
proof -
  have "calculateLevenshteinDistance ''kitten'' ''sitting'' = Some 3"
    and "calculateLevenshteinDistance ''kitten'' ''mitten'' = Some 1"
    and "calculateLevenshteinDistance ''mitten'' ''sitting'' = Some 3"
    by code_simp+
  with levenshtein_triangle[of "''kitten''" "''sitting''" "''mitten''"]
  show ?thesis by simp
qed

text \<open>
  C10, as amended. For every array and every integer size greater than zero, \<open>chunk\<close>
  returns, raises nothing, and partitions the array in order: the concatenation of the
  chunks is the array, every chunk but the last has exactly \<open>size\<close> elements, and for a
  non-empty array there is a last chunk, of between 1 and \<open>size\<close> elements.
\<close>

theorem chunk_partitions:
  assumes "sz \<in> \<int>" and "0 < sz"
  shows "\<exists>cs. chunk array sz = Some (Inr cs)
           \<and> concat cs = array
           \<and> (\<forall>c \<in> set (butlast cs). of_nat (length c) = sz)
           \<and> (array \<noteq> [] \<longrightarrow>
                cs \<noteq> [] \<and> 1 \<le> length (last cs) \<and> of_nat (length (last cs)) \<le> sz)"
proof -
  from assms(1) obtain z :: int where z: "sz = of_int z"
    by (rule Ints_cases)
  with assms(2) have "0 < z"
    by simp
  then have k: "sz = of_nat (nat z)" "0 < nat z"
    using z by simp_all
  from chunk_loop_returns[OF k(2), of array 0 "[]"]
  obtain cs where cs:
    "chunk_loop array (of_nat (nat z)) 0 [] = Some cs"
    "concat cs = array"
    "\<forall>c \<in> set (butlast cs). length c = nat z"
    "cs \<noteq> [] \<longrightarrow> 1 \<le> length (last cs) \<and> length (last cs) \<le> nat z"
    "cs = [] \<longleftrightarrow> length array \<le> 0"
    by auto
  have "chunk array sz = Some (Inr cs)"
    using k cs(1) assms(2) by (simp add: chunk_def)
  moreover have "\<forall>c \<in> set (butlast cs). (of_nat (length c) :: rat) = sz"
    using cs(3) k(1) by simp
  moreover have "array \<noteq> [] \<longrightarrow>
      cs \<noteq> [] \<and> 1 \<le> length (last cs) \<and> (of_nat (length (last cs)) :: rat) \<le> sz"
    using cs(4) cs(5) k(1) by simp
  ultimately show ?thesis using cs(2) by blast
qed

theorem chunk_partitions_witness:
  "(2::rat) \<in> \<int> \<and> (0::rat) < 2
   \<and> (\<exists>cs. chunk [1, 2, 3, 4, 5 :: int] 2 = Some (Inr cs)
           \<and> concat cs = [1, 2, 3, 4, 5]
           \<and> (\<forall>c \<in> set (butlast cs). (of_nat (length c) :: rat) = 2)
           \<and> cs \<noteq> [] \<and> 1 \<le> length (last cs) \<and> (of_nat (length (last cs)) :: rat) \<le> 2)
   \<and> chunk [1, 2, 3, 4, 5 :: int] 2 = Some (Inr [[1, 2], [3, 4], [5]])"
proof -
  have e: "chunk [1, 2, 3, 4, 5 :: int] 2 = Some (Inr [[1, 2], [3, 4], [5]])"
    by code_simp
  have "(2::rat) \<in> \<int>" and "(0::rat) < 2"
    by simp_all
  from chunk_partitions[OF this, of "[1, 2, 3, 4, 5 :: int]"] e
  show ?thesis by simp
qed

text \<open>
  C10 as stated fails for a size that is not an integer: with size 3/2 the bounds of the
  slices are truncated, the chunks of five items are \<open>[1]\<close>, \<open>[2, 3]\<close>, \<open>[4]\<close>, \<open>[5]\<close>, and the
  first chunk has one element, not 3/2.
\<close>

theorem chunk_fractional_size:
  "chunk [1, 2, 3, 4, 5 :: int] (3 / 2) = Some (Inr [[1], [2, 3], [4], [5]])
   \<and> (of_nat (length [1 :: int]) :: rat) \<noteq> 3 / 2"
proof -
  have "chunk [1, 2, 3, 4, 5 :: int] (3 / 2) = Some (Inr [[1], [2, 3], [4], [5]])"
    by code_simp
  then show ?thesis by simp
qed

end
